theory Spec2Isabelle
  imports Main "HOL-Library.Sublist"
begin

section \<open>Buffers and JavaScript strings\<close>

text \<open>
  The bridge (the newer script, with \<open>createLspInterceptor\<close> and \<open>cleanup\<close>) works on
  Node \<open>Buffer\<close>s, which are byte sequences, and on JavaScript strings, which are
  sequences of UTF-16 code units. A byte is a \<^typ>\<open>char\<close>; a code unit is a natural
  number. \<open>buffer.length\<close>, \<open>buffer.slice\<close> count bytes, whereas \<open>str.indexOf\<close>,
  \<open>str.substring\<close> count code units; the two are kept apart here as they are in the
  source.
\<close>

type_synonym buffer = "char list"
type_synonym jsstring = "nat list"

definition ascii :: "buffer \<Rightarrow> bool" where
  "ascii bs \<longleftrightarrow> list_all (\<lambda>b. (of_char b :: nat) < 128) bs"

definition js :: "string \<Rightarrow> jsstring" where
  "js s = map of_char s"

subsection \<open>\<open>buffer.toString('utf8')\<close>\<close>

text \<open>
  Decoding follows the UTF-8 decoder of the Encoding standard, which Node implements:
  a lead byte fixes the number of continuation bytes and the range of the first one;
  a byte outside the expected range ends the sequence with one U+FFFD and is decoded
  again as the start of the next sequence; input that ends inside a sequence gives one
  U+FFFD. Code points above U+FFFF become a surrogate pair, two code units.
\<close>

definition units_of_cp :: "nat \<Rightarrow> jsstring" where
  "units_of_cp cp =
     (if cp < 0x10000 then [cp]
      else [0xD800 + (cp - 0x10000) div 0x400, 0xDC00 + (cp - 0x10000) mod 0x400])"

fun cont_scan :: "nat \<Rightarrow> nat \<Rightarrow> nat \<Rightarrow> nat \<Rightarrow> nat list \<Rightarrow> jsstring \<times> nat list" where
  "cont_scan 0 lo hi cp bs = (units_of_cp cp, bs)"
| "cont_scan (Suc n) lo hi cp [] = ([0xFFFD], [])"
| "cont_scan (Suc n) lo hi cp (c # bs) =
     (if lo \<le> c \<and> c \<le> hi then cont_scan n 0x80 0xBF (cp * 64 + (c - 0x80)) bs
      else ([0xFFFD], c # bs))"

lemma cont_scan_length: "length (snd (cont_scan n lo hi cp bs)) \<le> length bs"
  by (induction n lo hi cp bs rule: cont_scan.induct) auto

lemma cont_scan_less: "length (snd (cont_scan n lo hi cp bs)) < Suc (length bs)"
  using cont_scan_length [of n lo hi cp bs] by simp

function utf8_decode :: "nat list \<Rightarrow> jsstring" where
  "utf8_decode [] = []"
| "utf8_decode (b # bs) =
     (if b < 0x80 then b # utf8_decode bs
      else if 0xC2 \<le> b \<and> b \<le> 0xDF then
        (case cont_scan 1 0x80 0xBF (b - 0xC0) bs of (us, r) \<Rightarrow> us @ utf8_decode r)
      else if 0xE0 \<le> b \<and> b \<le> 0xEF then
        (case cont_scan 2 (if b = 0xE0 then 0xA0 else 0x80) (if b = 0xED then 0x9F else 0xBF)
                (b - 0xE0) bs of (us, r) \<Rightarrow> us @ utf8_decode r)
      else if 0xF0 \<le> b \<and> b \<le> 0xF4 then
        (case cont_scan 3 (if b = 0xF0 then 0x90 else 0x80) (if b = 0xF4 then 0x8F else 0xBF)
                (b - 0xF0) bs of (us, r) \<Rightarrow> us @ utf8_decode r)
      else 0xFFFD # utf8_decode bs)"
  by pat_completeness auto
termination
proof (relation "measure length")
  show "wf (measure length)" by simp
qed (auto dest!: arg_cong [where f = snd] simp: cont_scan_less)

definition toString :: "buffer \<Rightarrow> jsstring" where
  "toString buf = utf8_decode (map of_char buf)"

subsection \<open>\<open>Buffer.from(str, 'utf8')\<close>\<close>

text \<open>
  Encoding a string joins a high surrogate and the low surrogate after it into one code
  point of four bytes; a surrogate on its own is written as U+FFFD (EF BF BD).
\<close>

definition enc_cp :: "nat \<Rightarrow> nat list" where
  "enc_cp cp =
     (if cp < 0x80 then [cp]
      else if cp < 0x800 then [0xC0 + cp div 64, 0x80 + cp mod 64]
      else if cp < 0x10000 then [0xE0 + cp div 4096, 0x80 + (cp div 64) mod 64, 0x80 + cp mod 64]
      else [0xF0 + cp div 262144, 0x80 + (cp div 4096) mod 64, 0x80 + (cp div 64) mod 64,
            0x80 + cp mod 64])"

definition is_high :: "nat \<Rightarrow> bool" where
  "is_high u \<longleftrightarrow> 0xD800 \<le> u \<and> u \<le> 0xDBFF"

definition is_low :: "nat \<Rightarrow> bool" where
  "is_low u \<longleftrightarrow> 0xDC00 \<le> u \<and> u \<le> 0xDFFF"

definition enc_unit :: "nat \<Rightarrow> nat list" where
  "enc_unit u = enc_cp (if is_high u \<or> is_low u then 0xFFFD else u)"

fun utf8_encode :: "jsstring \<Rightarrow> nat list" where
  "utf8_encode [] = []"
| "utf8_encode [u] = enc_unit u"
| "utf8_encode (u # v # us) =
     (if is_high u \<and> is_low v
      then enc_cp (0x10000 + (u - 0xD800) * 0x400 + (v - 0xDC00)) @ utf8_encode us
      else enc_unit u @ utf8_encode (v # us))"

definition fromString :: "jsstring \<Rightarrow> buffer" where
  "fromString str = map char_of (utf8_encode str)"

subsection \<open>String searching and the two regular expressions\<close>

text \<open>\<open>str.indexOf(pat)\<close>: the first index at which \<open>pat\<close> occurs, \<open>None\<close> for \<open>-1\<close>.\<close>

fun indexOf :: "'a list \<Rightarrow> 'a list \<Rightarrow> nat option" where
  "indexOf pat [] = (if pat = [] then Some 0 else None)"
| "indexOf pat (x # xs) =
     (if prefix pat (x # xs) then Some 0 else map_option Suc (indexOf pat xs))"

definition str_includes :: "'a list \<Rightarrow> 'a list \<Rightarrow> bool" where
  "str_includes pat s \<longleftrightarrow> indexOf pat s \<noteq> None"

definition crlf :: string where
  "crlf = [CHR 0x0D, CHR 0x0A]"

definition crlfcrlf :: string where
  "crlfcrlf = crlf @ crlf"

definition cl_lit :: string where
  "cl_lit = ''Content-Length: ''"

definition is_digit :: "nat \<Rightarrow> bool" where
  "is_digit u \<longleftrightarrow> 48 \<le> u \<and> u \<le> 57"

text \<open>
  \<open>/Content-Length: (\d+)\r\n/\<close> tried at the start of \<open>s\<close>: the literal, then as many
  digits as there are (at least one), then CR LF. Backtracking to fewer digits cannot
  help, since the next unit would be a digit and not CR. The result is group 1.
\<close>

definition cl_crlf_here :: "jsstring \<Rightarrow> jsstring option" where
  "cl_crlf_here s =
     (if prefix (js cl_lit) s \<and> takeWhile is_digit (drop 16 s) \<noteq> []
         \<and> prefix (js crlf) (dropWhile is_digit (drop 16 s))
      then Some (takeWhile is_digit (drop 16 s)) else None)"

text \<open>\<open>str.match(/Content-Length: (\d+)\r\n/)\<close>: the leftmost match, \<open>None\<close> for \<open>null\<close>.\<close>

fun contentLengthMatch :: "jsstring \<Rightarrow> jsstring option" where
  "contentLengthMatch [] = None"
| "contentLengthMatch (x # xs) =
     (case cl_crlf_here (x # xs) of Some ds \<Rightarrow> Some ds | None \<Rightarrow> contentLengthMatch xs)"

text \<open>
  \<open>parseInt(digits, 10)\<close> on a non-empty string of decimal digits. The result is a
  natural number; JavaScript gives the same number up to \<open>2^53\<close>, far above the length of
  any buffer.
\<close>

definition parseInt :: "jsstring \<Rightarrow> nat" where
  "parseInt ds = foldl (\<lambda>a d. 10 * a + (d - 48)) 0 ds"

text \<open>The decimal digits of a number, as the template literal writes \<open>newBody.length\<close>.\<close>

fun decimal :: "nat \<Rightarrow> jsstring" where
  "decimal n = (if n < 10 then [48 + n] else decimal (n div 10) @ [48 + n mod 10])"

declare decimal.simps [simp del]

text \<open>
  \<open>s.replace(/Content-Length: \d+/, rep)\<close>: only the leftmost match is replaced (the
  expression has no \<open>g\<close> flag), and the match takes every digit that follows the literal.
\<close>

fun replaceContentLength :: "jsstring \<Rightarrow> jsstring \<Rightarrow> jsstring" where
  "replaceContentLength rep [] = []"
| "replaceContentLength rep (x # xs) =
     (if prefix (js cl_lit) (x # xs) \<and> takeWhile is_digit (drop 16 (x # xs)) \<noteq> []
      then rep @ dropWhile is_digit (drop 16 (x # xs))
      else x # replaceContentLength rep xs)"

text \<open>
  \<open>s.replace(/pat/g, rep)\<close> for a literal pattern: matches are taken from left to right,
  and the search goes on after the end of each match, so matches do not overlap.
\<close>

fun replaceAll :: "'a list \<Rightarrow> 'a list \<Rightarrow> 'a list \<Rightarrow> 'a list" where
  "replaceAll pat rep [] = []"
| "replaceAll pat rep (x # xs) =
     (if prefix pat (x # xs) then rep @ replaceAll pat rep (drop (length pat - 1) xs)
      else x # replaceAll pat rep xs)"

definition plaintext :: string where
  "plaintext = ''\"languageId\":\"plaintext\"''"

definition gdscript :: string where
  "gdscript = ''\"languageId\":\"gdscript\"''"

text \<open>\<open>buffer.slice(a, b)\<close> for \<open>a \<le> b\<close>; indices past the end are clamped.\<close>

definition slice :: "nat \<Rightarrow> nat \<Rightarrow> 'a list \<Rightarrow> 'a list" where
  "slice a b xs = drop a (take b xs)"

section \<open>The frame interceptor\<close>

text \<open>
  One pass of the \<open>while (true)\<close> loop of \<open>transform\<close> on the current buffer: \<open>None\<close>
  is \<open>break\<close>, otherwise the buffers pushed in this pass and the buffer left for the next.
  \<open>headerEndIndex\<close> is an index into the string, \<open>bodyStart\<close> is used as an index into the
  buffer, as in the source.
\<close>

definition interceptor_step :: "buffer \<Rightarrow> (buffer list \<times> buffer) option" where
  "interceptor_step buffer =
     (let str = toString buffer in
      case contentLengthMatch str of
        None \<Rightarrow> None
      | Some digits \<Rightarrow>
          (case indexOf (js crlfcrlf) str of
             None \<Rightarrow> None
           | Some headerEndIndex \<Rightarrow>
               let contentLength = parseInt digits;
                   bodyStart = headerEndIndex + 4
               in if length buffer < bodyStart + contentLength then None
                  else
                    let body = toString (slice bodyStart (bodyStart + contentLength) buffer)
                    in if str_includes (js plaintext) body then
                         let body' = replaceAll (js plaintext) (js gdscript) body;
                             newBody = fromString body';
                             newHeaders = replaceContentLength
                               (js cl_lit @ decimal (length newBody)) (take headerEndIndex str)
                         in Some ([fromString (newHeaders @ js crlfcrlf), newBody],
                                  drop (bodyStart + contentLength) buffer)
                       else Some ([take (bodyStart + contentLength) buffer],
                                  drop (bodyStart + contentLength) buffer)))"

lemma interceptor_step_shorter:
  assumes "interceptor_step buffer = Some (out, rest)"
  shows "length rest < length buffer"
  using assms
  by (auto simp: interceptor_step_def Let_def split: option.splits if_splits)

text \<open>The whole loop: passes are made until one breaks.\<close>

function interceptor_loop :: "buffer \<Rightarrow> buffer list \<times> buffer" where
  "interceptor_loop buffer =
     (case interceptor_step buffer of
        None \<Rightarrow> ([], buffer)
      | Some (out, rest) \<Rightarrow>
          (case interceptor_loop rest of (outs, final) \<Rightarrow> (out @ outs, final)))"
  by pat_completeness auto
termination
  by (relation "measure length") (auto simp: interceptor_step_shorter)

declare interceptor_loop.simps [simp del]

text \<open>
  \<open>transform(chunk, encoding, callback)\<close>: the chunk is appended to the buffer, the loop
  runs, and the state kept between calls is the buffer. The result lists the pushed
  buffers in order.
\<close>

definition transform :: "buffer \<Rightarrow> buffer \<Rightarrow> buffer list \<times> buffer" where
  "transform buffer chunk = interceptor_loop (buffer @ chunk)"

text \<open>
  \<open>createLspInterceptor()\<close> starts from \<open>Buffer.alloc(0)\<close>; the stream calls
  \<open>transform\<close> once for each chunk, in order.
\<close>

fun feed :: "buffer \<Rightarrow> buffer list \<Rightarrow> buffer list \<times> buffer" where
  "feed buffer [] = ([], buffer)"
| "feed buffer (chunk # chunks) =
     (case transform buffer chunk of
        (out, buffer') \<Rightarrow> (case feed buffer' chunks of (outs, final) \<Rightarrow> (out @ outs, final)))"

definition createLspInterceptor :: "buffer list \<Rightarrow> buffer list \<times> buffer" where
  "createLspInterceptor chunks = feed [] chunks"

section \<open>The port prober\<close>

text \<open>
  The port given to \<open>isPortOpen\<close> is a JavaScript number. The script takes it from
  \<open>parseInt(args[i + 1], 10)\<close> and passes it on as it is, so it is any integer, or NaN.
\<close>

datatype number = Number int | NaN

text \<open>
  \<open>socket.connect(port, host)\<close> accepts a port that is an integer from 0 to 65535, and
  throws \<open>ERR_SOCKET_BAD_PORT\<close> for any other, before anything is sent.
\<close>

fun isLegalPort :: "number \<Rightarrow> bool" where
  "isLegalPort (Number n) \<longleftrightarrow> 0 \<le> n \<and> n \<le> 65535"
| "isLegalPort NaN \<longleftrightarrow> False"

datatype js_error = ERR_SOCKET_BAD_PORT

text \<open>
  What the network does with the connection attempt is not decided by the script: the
  connection is accepted after some time, or refused after some time (any error of the
  connection, an unknown host included), or nothing is heard of it. Times are counted
  from the call of \<open>isPortOpen\<close>, in the unit of its \<open>timeout\<close>.
\<close>

datatype network = Accepts nat | Refuses nat | Silent

datatype socket_event = Connect | Error | Timeout

text \<open>
  The first event that the socket emits. \<open>socket.setTimeout(timeout)\<close> with a positive
  \<open>timeout\<close> makes the socket emit \<open>timeout\<close> once that time has passed with nothing heard
  from the network; \<open>socket.setTimeout(0)\<close> sets no timer. A connection counts as made
  before the timeout when it is made strictly earlier. The timeout is a natural number, as
  in the calls of the script, which all take the default, 1000. The timers of the runtime
  hold up to \<open>2^31 - 1\<close> milliseconds, more than 24 days, and a longer timeout is cut down
  to that; the model is for timeouts that a timer holds.
\<close>

definition first_event :: "nat \<Rightarrow> network \<Rightarrow> (nat \<times> socket_event) option" where
  "first_event timeout net =
     (case net of
        Accepts t \<Rightarrow> if 0 < timeout \<and> timeout \<le> t then Some (timeout, Timeout) else Some (t, Connect)
      | Refuses t \<Rightarrow> if 0 < timeout \<and> timeout \<le> t then Some (timeout, Timeout) else Some (t, Error)
      | Silent \<Rightarrow> if 0 < timeout then Some (timeout, Timeout) else None)"

text \<open>
  \<open>isPortOpen\<close> creates a socket, sets its timeout, registers one handler for each of
  the events \<open>connect\<close>, \<open>error\<close> and \<open>timeout\<close>, and connects. Every handler destroys the
  socket and then resolves the promise; a destroyed socket emits none of the three events,
  so at most one handler runs. An exception thrown by \<open>socket.connect\<close> leaves the executor
  of the promise, and the promise is rejected with it: the executor takes \<open>resolve\<close> only,
  and catches nothing. The trace gives each effect with its time, up to the one that
  settles the promise; nothing that happens later changes a settled promise.
\<close>

datatype probe_effect =
    NewSocket | SetTimeout nat | ConnectTo number string | Throw js_error | Destroy | Resolve bool

fun on_socket_event :: "socket_event \<Rightarrow> probe_effect list" where
  "on_socket_event Connect = [Destroy, Resolve True]"
| "on_socket_event Error = [Destroy, Resolve False]"
| "on_socket_event Timeout = [Destroy, Resolve False]"

definition isPortOpen_trace ::
    "number \<Rightarrow> string \<Rightarrow> nat \<Rightarrow> network \<Rightarrow> (nat \<times> probe_effect) list" where
  "isPortOpen_trace port host timeout net =
     [(0, NewSocket), (0, SetTimeout timeout)]
     @ (if isLegalPort port
        then (0, ConnectTo port host)
             # (case first_event timeout net of
                  None \<Rightarrow> []
                | Some (t, e) \<Rightarrow> map (Pair t) (on_socket_event e))
        else [(0, Throw ERR_SOCKET_BAD_PORT)])"

text \<open>The state of the promise after a trace, and the time at which it was settled.\<close>

datatype promise = Pending | Resolved bool | Rejected js_error

fun settled :: "(nat \<times> probe_effect) list \<Rightarrow> promise" where
  "settled [] = Pending"
| "settled ((t, Resolve b) # es) = Resolved b"
| "settled ((t, Throw e) # es) = Rejected e"
| "settled (e # es) = settled es"

fun settled_at :: "(nat \<times> probe_effect) list \<Rightarrow> nat option" where
  "settled_at [] = None"
| "settled_at ((t, Resolve b) # es) = Some t"
| "settled_at ((t, Throw e) # es) = Some t"
| "settled_at (e # es) = settled_at es"

definition isPortOpen :: "number \<Rightarrow> string \<Rightarrow> nat \<Rightarrow> network \<Rightarrow> promise" where
  "isPortOpen port host timeout net = settled (isPortOpen_trace port host timeout net)"

section \<open>Launching the editor and waiting for it\<close>

datatype message =
    NoExecutable | SetGodotPath | NoProject | UseProjectFlag
  | Launching | GodotIs string | ProjectIs string | PortIs nat | CommandIs string "string list"
  | UsingXvfb | NoXvfb | Waiting | Ready nat | StillWaiting nat
  | PollTimeout | Tips | Tip1 | Tip2 | Tip3 | Tip4
  | FailedToStart | StartManually | Connected nat | SocketFailed | CleaningUp

datatype effect =
    Log message
  | Probe nat
  | Spawn string "string list"
  | Unref
  | Sleep nat
  | SocketConnect nat
  | PipeStdin
  | SocketEnd
  | Kill nat
  | Taskkill nat
  | Exit nat

text \<open>
  What the session cannot decide by itself: the platform, the results of the two file
  searches (\<open>findGodot\<close>, \<open>findProjectFile\<close>), the value to which the \<open>n\<close>-th call of
  \<open>isPortOpen\<close> resolves for a port, the process id of the child, and whether killing it
  throws. The port of the session is a port number, for which \<open>isPortOpen\<close> is always
  resolved; the calls are made with the timeout 1000.
\<close>

record env =
  isWindows :: bool
  isLinux :: bool
  display :: bool
  xvfb :: bool
  godotFound :: "string option"
  projectFound :: "string option"
  portOpen :: "nat \<Rightarrow> nat \<Rightarrow> bool"
  childPid :: nat
  killThrows :: bool

definition portString :: "nat \<Rightarrow> string" where
  "portString port = map char_of (decimal port)"

definition godotArgs :: "nat \<Rightarrow> string \<Rightarrow> string list" where
  "godotArgs port project =
     [''--editor'', ''--headless'', ''--display-driver'', ''headless'',
      ''--audio-driver'', ''Dummy'', ''--lsp-port'', portString port, ''--path'', project]"

text \<open>
  The waiting loop \<open>for (let i = 0; i < 60; i++)\<close>, from the value \<open>i\<close> on, with the bound
  as a parameter; \<open>up i\<close> is the result of the probe made in pass \<open>i\<close>. The older script has
  the same loop with the bound 40.
\<close>

function waitLoop :: "(nat \<Rightarrow> bool) \<Rightarrow> nat \<Rightarrow> nat \<Rightarrow> nat \<Rightarrow> effect list \<times> bool" where
  "waitLoop up port bound i =
     (if i < bound then
        (if up i then ([Sleep 500, Probe port, Log (Ready port)], True)
         else (case waitLoop up port bound (Suc i) of
                 (es, r) \<Rightarrow>
                   ([Sleep 500, Probe port]
                      @ (if (i + 1) mod 10 = 0 then [Log (StillWaiting ((i + 1) div 2))] else [])
                      @ es, r)))
      else ([Log PollTimeout, Log Tips, Log Tip1, Log Tip2, Log Tip3, Log Tip4], False))"
  by pat_completeness auto
termination
  by (relation "measure (\<lambda>(up, port, bound, i). bound - i)") auto

declare waitLoop.simps [simp del]

definition maxAttempts :: nat where
  "maxAttempts = 60"

definition maxAttempts_older :: nat where
  "maxAttempts_older = 40"

text \<open>
  \<open>launchGodotEditor\<close>: the effects, the value left in \<open>spawnedGodotProcess\<close>, and the
  result. \<open>n\<close> is the number of probes made before.
\<close>

definition launchGodotEditor :: "env \<Rightarrow> nat \<Rightarrow> nat \<Rightarrow> effect list \<times> nat option \<times> bool" where
  "launchGodotEditor env port n =
     (case godotFound env of
        None \<Rightarrow> ([Log NoExecutable, Log SetGodotPath], None, False)
      | Some godot \<Rightarrow>
          (case projectFound env of
             None \<Rightarrow> ([Log NoProject, Log UseProjectFlag], None, False)
           | Some project \<Rightarrow>
               (case waitLoop (\<lambda>i. portOpen env (n + i) port) port maxAttempts 0 of
                  (es, r) \<Rightarrow>
                    ([Log Launching, Log (GodotIs godot), Log (ProjectIs project), Log (PortIs port),
                      Log (CommandIs godot (godotArgs port project))]
                     @ (if isLinux env \<and> \<not> display env then
                          (if xvfb env
                           then [Log UsingXvfb,
                                 Spawn ''xvfb-run'' (''-a'' # godot # godotArgs port project)]
                           else [Log NoXvfb, Spawn godot (godotArgs port project)])
                        else [Spawn godot (godotArgs port project)])
                     @ [Unref, Log Waiting] @ es,
                     Some (childPid env), r))))"

section \<open>The session\<close>

record session_state =
  port :: nat
  spawnedGodotProcess :: "nat option"

text \<open>
  \<open>main\<close> up to \<open>socket.connect\<close>: the effects, and the state with which the handlers are
  registered, or \<open>None\<close> when \<open>process.exit(1)\<close> was called.
\<close>

definition probeExisting :: "env \<Rightarrow> nat \<Rightarrow> effect list \<times> nat \<times> bool \<times> nat" where
  "probeExisting env p =
     (if portOpen env 0 p then ([Probe p], p, True, 1)
      else if p = 6005 then
        ([Probe p, Probe 6008], if portOpen env 1 6008 then 6008 else p, portOpen env 1 6008, 2)
      else if p = 6008 then
        ([Probe p, Probe 6005], if portOpen env 1 6005 then 6005 else p, portOpen env 1 6005, 2)
      else ([Probe p], p, False, 1))"

definition startup :: "env \<Rightarrow> nat \<Rightarrow> effect list \<times> session_state option" where
  "startup env p =
     (case probeExisting env p of
        (es, p', lspRunning, n) \<Rightarrow>
          if lspRunning
          then (es @ [SocketConnect p'], Some \<lparr>port = p', spawnedGodotProcess = None\<rparr>)
          else (case launchGodotEditor env p' n of
                  (es', spawned, ok) \<Rightarrow>
                    if ok
                    then (es @ es' @ [SocketConnect p'],
                          Some \<lparr>port = p', spawnedGodotProcess = spawned\<rparr>)
                    else (es @ es' @ [Log FailedToStart, Log StartManually, Exit 1], None)))"

text \<open>
  \<open>cleanup\<close>, the handler of SIGTERM and SIGINT. The attempt to kill is inside
  \<open>try { ... } catch (e) {}\<close>: whether or not it throws, the next statement is
  \<open>process.exit(0)\<close>, and the handler of the exception is empty.
\<close>

definition killAttempt :: "env \<Rightarrow> nat \<Rightarrow> effect list \<times> bool" where
  "killAttempt env pid =
     (if isWindows env then ([Taskkill pid], killThrows env) else ([Kill pid], killThrows env))"

definition try_catch_empty :: "effect list \<times> bool \<Rightarrow> effect list" where
  "try_catch_empty body = (case body of (es, thrown) \<Rightarrow> if thrown then es @ [] else es)"

definition cleanup :: "env \<Rightarrow> session_state \<Rightarrow> effect list" where
  "cleanup env st =
     [SocketEnd]
     @ (case spawnedGodotProcess st of
          None \<Rightarrow> []
        | Some pid \<Rightarrow>
            [Log CleaningUp] @ try_catch_empty (killAttempt env pid))
     @ [Exit 0]"

datatype event = SocketConnected | SocketError | SocketClosed | Signal

text \<open>The handlers on the events that arrive, in order, until one of them exits.\<close>

fun handlers :: "env \<Rightarrow> session_state \<Rightarrow> event list \<Rightarrow> effect list" where
  "handlers env st [] = []"
| "handlers env st (SocketConnected # evs) = Log (Connected (port st)) # PipeStdin # handlers env st evs"
| "handlers env st (SocketError # evs) = [Log SocketFailed, Exit 1]"
| "handlers env st (SocketClosed # evs) = [Exit 0]"
| "handlers env st (Signal # evs) = cleanup env st"

definition main :: "env \<Rightarrow> nat \<Rightarrow> event list \<Rightarrow> effect list" where
  "main env p events =
     (case startup env p of
        (es, None) \<Rightarrow> es
      | (es, Some st) \<Rightarrow> es @ handlers env st events)"

text \<open>
  The older script, \<open>godot-lsp-bridge.js\<close>, has the same handlers for the socket. Its
  handlers of SIGTERM and SIGINT are two copies of a function that ends the socket and
  exits; the script keeps the child in a variable local to \<open>launchGodotEditor\<close>, and has no
  \<open>cleanup\<close>. \<open>q\<close> is the port connected to.
\<close>

definition older_signal_handler :: "effect list" where
  "older_signal_handler = [SocketEnd, Exit 0]"

fun older_handlers :: "nat \<Rightarrow> event list \<Rightarrow> effect list" where
  "older_handlers q [] = []"
| "older_handlers q (SocketConnected # evs) = Log (Connected q) # PipeStdin # older_handlers q evs"
| "older_handlers q (SocketError # evs) = [Log SocketFailed, Exit 1]"
| "older_handlers q (SocketClosed # evs) = [Exit 0]"
| "older_handlers q (Signal # evs) = older_signal_handler"

fun exit_code :: "effect list \<Rightarrow> nat option" where
  "exit_code [] = None"
| "exit_code (Exit c # es) = Some c"
| "exit_code (e # es) = exit_code es"

text \<open>
  \<open>process.on('SIGTERM', cleanup)\<close> and \<open>process.on('SIGINT', cleanup)\<close> are the last
  statements of \<open>main\<close> before \<open>socket.connect\<close>: the probes, and \<open>launchGodotEditor\<close> with
  its waiting loop, are awaited with no handler installed. A SIGTERM or SIGINT for which
  no handler is installed ends the process at once, by the default action of the signal:
  no statement of the script runs after it, and the process does not end by
  \<open>process.exit\<close>. The child was spawned \<open>detached\<close> and then \<open>unref\<close>'d: it is not
  signalled with the bridge, and nothing waits for it.

  In \<open>session env p early events\<close>, \<open>early = Some k\<close> says that a signal arrives before the
  handlers are installed, at the moment when \<open>k\<close> effects of start-up have been performed;
  there is no such moment once start-up has performed its last effect, which is
  \<open>process.exit(1)\<close> or, after the handlers are installed, \<open>socket.connect\<close>. \<open>events\<close> are
  the events that arrive after that. The result is the trace and how the process ended.
\<close>

datatype ending = ExitCode nat | DefaultAction | NoExit

definition ending_of :: "effect list \<Rightarrow> ending" where
  "ending_of es = (case exit_code es of Some c \<Rightarrow> ExitCode c | None \<Rightarrow> NoExit)"

definition session :: "env \<Rightarrow> nat \<Rightarrow> nat option \<Rightarrow> event list \<Rightarrow> effect list \<times> ending" where
  "session env p early events =
     (case early of
        None \<Rightarrow> (main env p events, ending_of (main env p events))
      | Some k \<Rightarrow>
          if k < length (fst (startup env p))
          then (take k (fst (startup env p)), DefaultAction)
          else (main env p events, ending_of (main env p events)))"

fun is_spawn :: "effect \<Rightarrow> bool" where
  "is_spawn (Spawn c as) = True"
| "is_spawn e = False"

fun is_kill :: "effect \<Rightarrow> bool" where
  "is_kill (Kill p) = True"
| "is_kill (Taskkill p) = True"
| "is_kill e = False"

fun is_log :: "effect \<Rightarrow> bool" where
  "is_log (Log m) = True"
| "is_log e = False"

fun is_probe :: "effect \<Rightarrow> bool" where
  "is_probe (Probe p) = True"
| "is_probe e = False"

definition already_reachable :: "env \<Rightarrow> nat \<Rightarrow> bool" where
  "already_reachable env p \<longleftrightarrow>
     portOpen env 0 p \<or> (p = 6005 \<and> portOpen env 1 6008) \<or> (p = 6008 \<and> portOpen env 1 6005)"

section \<open>Notions used in the statements\<close>

subsection \<open>Passes of the waiting loop\<close>

text \<open>
  One pass of the loop that does not find the port open: the sleep, the probe, and the
  progress line after every tenth probe.
\<close>

definition pass :: "nat \<Rightarrow> nat \<Rightarrow> effect list" where
  "pass p i = [Sleep 500, Probe p] @ (if (i + 1) mod 10 = 0 then [Log (StillWaiting ((i + 1) div 2))] else [])"

text \<open>
  The time slept in a trace, and the progress lines in it.
\<close>

fun slept :: "effect list \<Rightarrow> nat" where
  "slept [] = 0"
| "slept (Sleep t # es) = t + slept es"
| "slept (e # es) = slept es"

fun is_progress :: "effect \<Rightarrow> bool" where
  "is_progress (Log (StillWaiting n)) = True"
| "is_progress e = False"

subsection \<open>Ports that open\<close>

text \<open>
  Some behaviours of the port, as functions of the number of the probe and the port
  probed: never open, always open, port 6008 open at the first probe, open from the
  third probe on.
\<close>

definition never_open :: "nat \<Rightarrow> nat \<Rightarrow> bool" where
  "never_open n q \<longleftrightarrow> False"

definition always_open :: "nat \<Rightarrow> nat \<Rightarrow> bool" where
  "always_open n q \<longleftrightarrow> True"

definition opens_first :: "nat \<Rightarrow> nat \<Rightarrow> bool" where
  "opens_first n q \<longleftrightarrow> n = 1 \<and> q = 6008"

definition opens_third :: "nat \<Rightarrow> nat \<Rightarrow> bool" where
  "opens_third n q \<longleftrightarrow> 3 \<le> n"

subsection \<open>Frames\<close>

text \<open>
  A frame of the protocol: a header block of ASCII text, the blank line, and the body.
  The header block is written as the text before its first \<open>Content-Length: \<close>, the digits
  of the declared length, and the text after them. It is valid when it is ASCII, the
  digits (at least one) give the number of bytes of the body, the length declaration ends
  its line, \<open>Content-Length: \<close> does not occur earlier, and there is no empty line inside
  the block.
\<close>

record frame =
  before_length :: string
  length_digits :: string
  after_length :: string
  frame_body :: buffer

definition header_text :: "frame \<Rightarrow> string" where
  "header_text f = before_length f @ cl_lit @ length_digits f @ after_length f"

definition frame_bytes :: "frame \<Rightarrow> buffer" where
  "frame_bytes f = header_text f @ crlfcrlf @ frame_body f"

definition valid_frame :: "frame \<Rightarrow> bool" where
  "valid_frame f \<longleftrightarrow>
     ascii (before_length f) \<and> ascii (after_length f)
     \<and> length_digits f \<noteq> [] \<and> list_all (\<lambda>c. is_digit (of_char c)) (length_digits f)
     \<and> parseInt (js (length_digits f)) = length (frame_body f)
     \<and> indexOf cl_lit (before_length f @ cl_lit) = Some (length (before_length f))
     \<and> (after_length f = [] \<or> prefix crlf (after_length f))
     \<and> indexOf crlfcrlf (header_text f @ crlfcrlf) = Some (length (header_text f))"

text \<open>
  What a valid frame is expected to become: itself, unless the decoded body contains the
  target; then a header block in which only the digits differ, and the re-encoded body
  with the replacements made.
\<close>

definition rewritten_body :: "buffer \<Rightarrow> buffer" where
  "rewritten_body b = fromString (replaceAll (js plaintext) (js gdscript) (toString b))"

definition expected_output :: "frame \<Rightarrow> buffer list" where
  "expected_output f =
     (if str_includes (js plaintext) (toString (frame_body f))
      then [before_length f @ cl_lit
              @ map char_of (decimal (length (rewritten_body (frame_body f))))
              @ after_length f @ crlfcrlf,
            rewritten_body (frame_body f)]
      else [frame_bytes f])"


subsection \<open>Decoding a prefix\<close>

text \<open>
  Decoding more bytes keeps what was decoded, except a final U+FFFD that stood for a
  sequence cut off by the end of the input.
\<close>

definition stable_ext :: "jsstring \<Rightarrow> jsstring \<Rightarrow> bool" where
  "stable_ext s s' \<longleftrightarrow> (\<exists>p t. s' = p @ t \<and> (s = p \<or> s = p @ [0xFFFD]))"

section \<open>Incomplete and malformed headers\<close>

text \<open>
  C7. Whenever the bytes buffered after a chunk has been appended lack a match of the
  length-declaring header pattern, or lack the blank-line delimiter, \<open>transform\<close>
  pushes nothing and keeps every buffered byte, in order, for the next call. The
  function has no error result: a malformed header alone cannot end the session.
\<close>

theorem malformed_header_waits:
  assumes "contentLengthMatch (toString (buffer @ chunk)) = None
         \<or> indexOf (js crlfcrlf) (toString (buffer @ chunk)) = None"
  shows "transform buffer chunk = ([], buffer @ chunk)"
proof -
  have "interceptor_step (buffer @ chunk) = None"
    using assms by (auto simp: interceptor_step_def Let_def split: option.splits)
  then show ?thesis
    by (simp add: transform_def interceptor_loop.simps)
qed

theorem malformed_header_waits_witness:
  "contentLengthMatch (toString (''Content-Len'' @ ''gth: abc'' @ crlfcrlf)) = None
   \<and> transform ''Content-Len'' (''gth: abc'' @ crlfcrlf)
       = ([], ''Content-Len'' @ ''gth: abc'' @ crlfcrlf)"
proof -
  have h: "contentLengthMatch (toString (''Content-Len'' @ ''gth: abc'' @ crlfcrlf)) = None"
    by code_simp
  show ?thesis
    using h malformed_header_waits [of "''Content-Len''" "''gth: abc'' @ crlfcrlf"] by simp
qed

section \<open>The prober settles at the first event\<close>

text \<open>
  C8, as stated, fails for a port that is an integer but not a port number: with 70000,
  or with -1, \<open>socket.connect\<close> throws, and the promise is rejected, not resolved to a
  boolean (so it is for NaN). It fails also for the timeout 0, which sets no timer: a
  connection refused at time 5 resolves the promise at time 5, not within the timeout.
\<close>

theorem bad_port_is_rejected:
  "isPortOpen (Number 70000) ''127.0.0.1'' 1000 (Refuses 3) = Rejected ERR_SOCKET_BAD_PORT
   \<and> isPortOpen (Number (- 1)) ''127.0.0.1'' 1000 (Accepts 3) = Rejected ERR_SOCKET_BAD_PORT
   \<and> isPortOpen NaN ''127.0.0.1'' 1000 Silent = Rejected ERR_SOCKET_BAD_PORT
   \<and> isPortOpen_trace (Number 70000) ''127.0.0.1'' 1000 (Refuses 3)
       = [(0, NewSocket), (0, SetTimeout 1000), (0, Throw ERR_SOCKET_BAD_PORT)]
   \<and> isPortOpen (Number 6005) ''127.0.0.1'' 0 (Refuses 5) = Resolved False
   \<and> settled_at (isPortOpen_trace (Number 6005) ''127.0.0.1'' 0 (Refuses 5)) = Some 5"
  by (simp add: isPortOpen_def isPortOpen_trace_def first_event_def)

text \<open>
  C8, amended. For a port that is an integer from 0 to 65535, any host and a positive
  timeout, the promise is resolved to a boolean, never rejected and never left pending:
  to true when the connection is accepted before the timeout, to false when it is refused
  before the timeout or when the timeout comes first. The socket is destroyed just before
  the promise is resolved, and nothing else is done to it. The promise is settled at the
  time of the answer of the network or at the timeout, whichever is first, so never later
  than the timeout; a refused connection gives false. For such a port the promise is not
  rejected whatever the timeout.
\<close>

theorem port_prober:
  "(isLegalPort pn \<and> 0 < timeout \<longrightarrow>
      isPortOpen pn host timeout net
        = Resolved (case net of Accepts c \<Rightarrow> c < timeout | Refuses c \<Rightarrow> False | Silent \<Rightarrow> False)
      \<and> isPortOpen_trace pn host timeout net
        = [(0, NewSocket), (0, SetTimeout timeout), (0, ConnectTo pn host),
           (case net of Accepts c \<Rightarrow> min c timeout | Refuses c \<Rightarrow> min c timeout
              | Silent \<Rightarrow> timeout, Destroy),
           (case net of Accepts c \<Rightarrow> min c timeout | Refuses c \<Rightarrow> min c timeout
              | Silent \<Rightarrow> timeout,
            Resolve (case net of Accepts c \<Rightarrow> c < timeout | Refuses c \<Rightarrow> False
              | Silent \<Rightarrow> False))]
      \<and> settled_at (isPortOpen_trace pn host timeout net)
        = Some (case net of Accepts c \<Rightarrow> min c timeout | Refuses c \<Rightarrow> min c timeout
              | Silent \<Rightarrow> timeout)
      \<and> (case net of Accepts c \<Rightarrow> min c timeout | Refuses c \<Rightarrow> min c timeout
              | Silent \<Rightarrow> timeout) \<le> timeout)
   \<and> (isLegalPort pn \<longrightarrow> isPortOpen pn host timeout net \<noteq> Rejected e)"
proof (intro conjI impI)
  assume h: "isLegalPort pn \<and> 0 < timeout"
  show "isPortOpen pn host timeout net
        = Resolved (case net of Accepts c \<Rightarrow> c < timeout | Refuses c \<Rightarrow> False | Silent \<Rightarrow> False)"
    using h by (cases net) (auto simp: isPortOpen_def isPortOpen_trace_def first_event_def)
  show "isPortOpen_trace pn host timeout net
        = [(0, NewSocket), (0, SetTimeout timeout), (0, ConnectTo pn host),
           (case net of Accepts c \<Rightarrow> min c timeout | Refuses c \<Rightarrow> min c timeout
              | Silent \<Rightarrow> timeout, Destroy),
           (case net of Accepts c \<Rightarrow> min c timeout | Refuses c \<Rightarrow> min c timeout
              | Silent \<Rightarrow> timeout,
            Resolve (case net of Accepts c \<Rightarrow> c < timeout | Refuses c \<Rightarrow> False
              | Silent \<Rightarrow> False))]"
    using h by (cases net) (auto simp: isPortOpen_trace_def first_event_def min_def)
  show "settled_at (isPortOpen_trace pn host timeout net)
        = Some (case net of Accepts c \<Rightarrow> min c timeout | Refuses c \<Rightarrow> min c timeout
              | Silent \<Rightarrow> timeout)"
    using h by (cases net) (auto simp: isPortOpen_trace_def first_event_def min_def)
  show "(case net of Accepts c \<Rightarrow> min c timeout | Refuses c \<Rightarrow> min c timeout
              | Silent \<Rightarrow> timeout) \<le> timeout"
    by (cases net) simp_all
next
  assume "isLegalPort pn"
  then show "isPortOpen pn host timeout net \<noteq> Rejected e"
    by (cases "first_event timeout net"; cases "snd (the (first_event timeout net))")
      (auto simp: isPortOpen_def isPortOpen_trace_def)
qed

theorem port_prober_witness:
  "isLegalPort (Number 6005)
   \<and> isPortOpen (Number 6005) ''127.0.0.1'' 1000 Silent = Resolved False
   \<and> isPortOpen (Number 6005) ''127.0.0.1'' 1000 (Refuses 3) = Resolved False
   \<and> isPortOpen (Number 6005) ''127.0.0.1'' 1000 (Accepts 3) = Resolved True
   \<and> isPortOpen (Number 6005) ''127.0.0.1'' 1000 (Accepts 1000) = Resolved False
   \<and> isPortOpen_trace (Number 6005) ''127.0.0.1'' 1000 (Accepts 3)
       = [(0, NewSocket), (0, SetTimeout 1000), (0, ConnectTo (Number 6005) ''127.0.0.1''),
          (3, Destroy), (3, Resolve True)]
   \<and> settled_at (isPortOpen_trace (Number 6005) ''127.0.0.1'' 1000 (Refuses 3)) = Some 3
   \<and> settled_at (isPortOpen_trace (Number 6005) ''127.0.0.1'' 1000 Silent) = Some 1000"
  using port_prober [where pn = "Number 6005" and timeout = 1000 and host = "''127.0.0.1''"
      and net = "Silent"]
    port_prober [where pn = "Number 6005" and timeout = 1000 and host = "''127.0.0.1''"
      and net = "Refuses 3"]
    port_prober [where pn = "Number 6005" and timeout = 1000 and host = "''127.0.0.1''"
      and net = "Accepts 3"]
    port_prober [where pn = "Number 6005" and timeout = 1000 and host = "''127.0.0.1''"
      and net = "Accepts 1000"]
  by simp

section \<open>The waiting loop\<close>

lemma waitLoop_success:
  assumes "k < bound" "up k" "\<forall>j. i \<le> j \<and> j < k \<longrightarrow> \<not> up j" "i \<le> k"
  shows "waitLoop up p bound i
         = (concat (map (pass p) [i..<k]) @ [Sleep 500, Probe p, Log (Ready p)], True)"
  using assms
proof (induction "k - i" arbitrary: i)
  case 0
  then have "i = k" by simp
  with 0 show ?case by (simp add: waitLoop.simps [of up p bound k])
next
  case (Suc d)
  then have lt: "i < k" and nup: "\<not> up i" by auto
  have step: "waitLoop up p bound (Suc i)
      = (concat (map (pass p) [Suc i..<k]) @ [Sleep 500, Probe p, Log (Ready p)], True)"
    using Suc by (intro Suc.hyps(1)) auto
  have "i < bound" using lt Suc.prems by simp
  then show ?case
    using nup lt step
    by (simp add: waitLoop.simps [of up p bound i] upt_conv_Cons pass_def)
qed

lemma waitLoop_timeout:
  assumes "\<forall>j. i \<le> j \<and> j < bound \<longrightarrow> \<not> up j" "i \<le> bound"
  shows "waitLoop up p bound i
         = (concat (map (pass p) [i..<bound])
             @ [Log PollTimeout, Log Tips, Log Tip1, Log Tip2, Log Tip3, Log Tip4], False)"
  using assms
proof (induction "bound - i" arbitrary: i)
  case 0
  then have "i = bound" by simp
  then show ?case by (simp add: waitLoop.simps [of up p bound bound])
next
  case (Suc d)
  then have lt: "i < bound" and nup: "\<not> up i" by auto
  have step: "waitLoop up p bound (Suc i)
      = (concat (map (pass p) [Suc i..<bound])
             @ [Log PollTimeout, Log Tips, Log Tip1, Log Tip2, Log Tip3, Log Tip4], False)"
    using Suc by (intro Suc.hyps(1)) auto
  show ?case
    using nup lt step
    by (simp add: waitLoop.simps [of up p bound i] upt_conv_Cons pass_def)
qed

lemma probes_of_passes: "length (filter is_probe (concat (map (pass p) ks))) = length ks"
  by (induction ks) (auto simp: pass_def)

lemma slept_append: "slept (xs @ ys) = slept xs + slept ys"
  by (induction xs rule: slept.induct) auto

lemma slept_passes: "slept (concat (map (pass p) ks)) = 500 * length ks"
  by (induction ks) (auto simp: pass_def slept_append)

lemma progress_of_passes:
  "filter is_progress (concat (map (pass p) ks))
   = map (\<lambda>j. Log (StillWaiting ((j + 1) div 2))) (filter (\<lambda>j. (j + 1) mod 10 = 0) ks)"
  by (induction ks) (auto simp: pass_def)

text \<open>
  C9. Every probe of the waiting loop follows a wait of 500 time units. If the port is
  first reachable at attempt \<open>a\<close> (counted from 1, up to the bound), the loop returns success
  after exactly \<open>a\<close> probes and \<open>a\<close> waits, and a progress message is logged after every tenth
  failed attempt. If no attempt succeeds the loop fails after as many probes as the bound,
  having waited 500 times the bound: 30000 time units for the bound 60 of the script, 20000
  for the bound 40 of the older one. The bound is a literal of the source.
\<close>

theorem readiness_poller:
  "(0 < a \<and> a \<le> bound \<and> (\<forall>j. j < a - 1 \<longrightarrow> \<not> up j) \<and> up (a - 1) \<longrightarrow>
      waitLoop up p bound 0
        = (concat (map (pass p) [0..<a - 1]) @ [Sleep 500, Probe p, Log (Ready p)], True)
      \<and> length (filter is_probe (fst (waitLoop up p bound 0))) = a
      \<and> slept (fst (waitLoop up p bound 0)) = 500 * a
      \<and> filter is_progress (fst (waitLoop up p bound 0))
          = map (\<lambda>j. Log (StillWaiting ((j + 1) div 2)))
              (filter (\<lambda>j. (j + 1) mod 10 = 0) [0..<a - 1]))
   \<and> ((\<forall>j. j < bound \<longrightarrow> \<not> up j) \<longrightarrow>
      snd (waitLoop up p bound 0) = False
      \<and> length (filter is_probe (fst (waitLoop up p bound 0))) = bound
      \<and> slept (fst (waitLoop up p bound 0)) = 500 * bound)
   \<and> 500 * maxAttempts = 30000 \<and> 500 * maxAttempts_older = 20000"
proof (intro conjI impI)
  assume h: "0 < a \<and> a \<le> bound \<and> (\<forall>j. j < a - 1 \<longrightarrow> \<not> up j) \<and> up (a - 1)"
  then show w: "waitLoop up p bound 0
      = (concat (map (pass p) [0..<a - 1]) @ [Sleep 500, Probe p, Log (Ready p)], True)"
    by (intro waitLoop_success) auto
  show "length (filter is_probe (fst (waitLoop up p bound 0))) = a"
    using h by (simp add: w probes_of_passes)
  have "500 * (a - 1) + 500 = 500 * a" using h by (cases a) auto
  then show "slept (fst (waitLoop up p bound 0)) = 500 * a"
    by (simp add: w slept_append slept_passes)
  show "filter is_progress (fst (waitLoop up p bound 0))
          = map (\<lambda>j. Log (StillWaiting ((j + 1) div 2))) (filter (\<lambda>j. (j + 1) mod 10 = 0) [0..<a - 1])"
    by (simp add: w progress_of_passes)
next
  assume h: "\<forall>j. j < bound \<longrightarrow> \<not> up j"
  then have w: "waitLoop up p bound 0
         = (concat (map (pass p) [0..<bound])
             @ [Log PollTimeout, Log Tips, Log Tip1, Log Tip2, Log Tip3, Log Tip4], False)"
    by (intro waitLoop_timeout) auto
  show "snd (waitLoop up p bound 0) = False" by (simp add: w)
  show "length (filter is_probe (fst (waitLoop up p bound 0))) = bound"
    by (simp add: w probes_of_passes)
  show "slept (fst (waitLoop up p bound 0)) = 500 * bound"
    by (simp add: w slept_append slept_passes)
qed (simp_all add: maxAttempts_def maxAttempts_older_def)

theorem readiness_poller_witness:
  "waitLoop (\<lambda>j. 10 \<le> j) 6005 maxAttempts 0
     = ([Sleep 500, Probe 6005, Sleep 500, Probe 6005, Sleep 500, Probe 6005,
         Sleep 500, Probe 6005, Sleep 500, Probe 6005, Sleep 500, Probe 6005,
         Sleep 500, Probe 6005, Sleep 500, Probe 6005, Sleep 500, Probe 6005,
         Sleep 500, Probe 6005, Log (StillWaiting 5),
         Sleep 500, Probe 6005, Log (Ready 6005)], True)
   \<and> length (filter is_probe (fst (waitLoop (\<lambda>j. 10 \<le> j) 6005 maxAttempts 0))) = 11"
  using readiness_poller [of 11 maxAttempts "\<lambda>j. 10 \<le> j" 6005]
  by (simp add: maxAttempts_def pass_def upt_rec)

section \<open>Start-up, shutdown and exit codes\<close>

lemma exit_code_append:
  "exit_code (xs @ ys) = (case exit_code xs of None \<Rightarrow> exit_code ys | Some c \<Rightarrow> Some c)"
  by (induction xs rule: exit_code.induct) auto

lemma try_catch_empty_fst: "try_catch_empty body = fst body"
  by (cases body) (simp add: try_catch_empty_def)

lemma cleanup_Some:
  "spawnedGodotProcess st = Some pid \<Longrightarrow>
   cleanup env st = [SocketEnd, Log CleaningUp, if isWindows env then Taskkill pid else Kill pid, Exit 0]"
  by (simp add: cleanup_def try_catch_empty_fst killAttempt_def)

lemma cleanup_None:
  "spawnedGodotProcess st = None \<Longrightarrow> cleanup env st = [SocketEnd, Exit 0]"
  by (simp add: cleanup_def)

lemma cleanup_killThrows: "cleanup (env\<lparr>killThrows := b\<rparr>) st = cleanup env st"
  by (simp add: cleanup_def try_catch_empty_fst killAttempt_def split: option.splits)

lemma handlers_connected:
  assumes "set pre \<subseteq> {SocketConnected}"
  shows "handlers env st (pre @ evs)
         = concat (map (\<lambda>e. [Log (Connected (port st)), PipeStdin]) pre) @ handlers env st evs"
  using assms by (induction pre) auto

lemma handlers_killThrows: "handlers (env\<lparr>killThrows := b\<rparr>) st evs = handlers env st evs"
  by (induction env st evs rule: handlers.induct) (auto simp: cleanup_killThrows)

lemma launch_killThrows: "launchGodotEditor (env\<lparr>killThrows := b\<rparr>) q n = launchGodotEditor env q n"
  by (auto simp add: launchGodotEditor_def split: option.splits prod.splits)

lemma probeExisting_killThrows: "probeExisting (env\<lparr>killThrows := b\<rparr>) p = probeExisting env p"
  by (simp add: probeExisting_def)

lemma startup_killThrows: "startup (env\<lparr>killThrows := b\<rparr>) p = startup env p"
  by (simp add: startup_def probeExisting_killThrows launch_killThrows split: prod.splits)

lemma main_killThrows: "main (env\<lparr>killThrows := b\<rparr>) p evs = main env p evs"
  by (simp add: main_def startup_killThrows handlers_killThrows split: prod.splits option.splits)

lemma exit_code_connected:
  "exit_code (concat (map (\<lambda>e. [Log (Connected q), PipeStdin]) pre)) = None"
  by (induction pre) auto

lemma probeExisting_reachable:
  "already_reachable env p \<longleftrightarrow> fst (snd (snd (probeExisting env p)))"
  by (auto simp: already_reachable_def probeExisting_def)

lemma probeExisting_probes: "\<forall>e \<in> set (fst (probeExisting env p)). is_probe e"
  by (simp add: probeExisting_def)

lemma probeExisting_unreachable:
  assumes "\<not> already_reachable env p"
  shows "probeExisting env p
         = (if p = 6005 then [Probe p, Probe 6008] else if p = 6008 then [Probe p, Probe 6005]
            else [Probe p], p, False, if p = 6005 \<or> p = 6008 then 2 else 1)"
  using assms by (auto simp: already_reachable_def probeExisting_def)

lemma exit_code_probes: "\<forall>e \<in> set es. is_probe e \<Longrightarrow> exit_code es = None"
  by (induction es rule: exit_code.induct) auto

lemma waitLoop_no_exit: "exit_code (fst (waitLoop up q bound i)) = None"
proof (induction up q bound i rule: waitLoop.induct)
  case (1 up q bound i)
  show ?case
  proof (cases "i < bound \<and> \<not> up i")
    case True
    then show ?thesis
      using 1 by (auto simp add: waitLoop.simps [of up q bound i] exit_code_append split: prod.splits)
  next
    case False
    then show ?thesis
      by (auto simp add: waitLoop.simps [of up q bound i])
  qed
qed

lemma launch_no_exit: "exit_code (fst (launchGodotEditor env q n)) = None"
  using waitLoop_no_exit [of "\<lambda>i. portOpen env (n + i) q" q maxAttempts 0]
  by (auto simp: launchGodotEditor_def exit_code_append split: option.splits prod.splits)

lemma startup_no_exit:
  "startup env p = (es, Some st) \<Longrightarrow> exit_code es = None"
  using launch_no_exit [of env "fst (snd (probeExisting env p))" "snd (snd (snd (probeExisting env p)))"]
    exit_code_probes [OF probeExisting_probes, of env p]
  by (auto simp: startup_def exit_code_append split: prod.splits if_splits)

lemma startup_failed:
  "startup env p = (es, None) \<Longrightarrow> exit_code es = Some 1"
  using launch_no_exit [of env "fst (snd (probeExisting env p))" "snd (snd (snd (probeExisting env p)))"]
    exit_code_probes [OF probeExisting_probes, of env p]
  by (auto simp: startup_def exit_code_append split: prod.splits if_splits)

lemma launch_fails:
  assumes "godotFound env = None \<or> projectFound env = None
           \<or> (\<forall>i. i < maxAttempts \<longrightarrow> \<not> portOpen env (n + i) q)"
  shows "snd (snd (launchGodotEditor env q n)) = False"
proof (cases "godotFound env = None \<or> projectFound env = None")
  case True
  then show ?thesis by (auto simp: launchGodotEditor_def split: option.splits)
next
  case False
  with assms have "\<forall>i. i < maxAttempts \<longrightarrow> \<not> portOpen env (n + i) q" by auto
  then have "snd (waitLoop (\<lambda>i. portOpen env (n + i) q) q maxAttempts 0) = False"
    using readiness_poller [of 0 maxAttempts "\<lambda>i. portOpen env (n + i) q" q] by simp
  then show ?thesis
    by (auto simp: launchGodotEditor_def split: option.splits prod.splits)
qed

lemma startup_unreachable_fails:
  assumes "\<not> already_reachable env p"
    and "godotFound env = None \<or> projectFound env = None
           \<or> (\<forall>i. i < maxAttempts \<longrightarrow> \<not> portOpen env ((if p = 6005 \<or> p = 6008 then 2 else 1) + i) p)"
  shows "snd (startup env p) = None"
proof -
  define n :: nat where "n = (if p = 6005 \<or> p = 6008 then 2 else 1)"
  obtain es' sp ok where L: "launchGodotEditor env p n = (es', sp, ok)"
    by (cases "launchGodotEditor env p n") auto
  have "\<not> ok"
    using launch_fails [of env n p] assms(2) L by (simp add: n_def)
  moreover obtain es where "probeExisting env p = (es, p, False, n)"
    using probeExisting_unreachable [OF assms(1)] by (simp add: n_def)
  ultimately show ?thesis
    using L by (simp add: startup_def)
qed


lemma handlers_no_child:
  assumes "spawnedGodotProcess st = None"
  shows "\<forall>e \<in> set (handlers env st evs). \<not> is_spawn e \<and> \<not> is_kill e"
  using assms by (induction env st evs rule: handlers.induct) (auto simp: cleanup_None)

lemma probe_not_spawn: "is_probe e \<Longrightarrow> \<not> is_spawn e \<and> \<not> is_kill e"
  by (cases e) auto

text \<open>
  C5. If the configured port answers the first probe, or the port is 6005 or 6008 and the
  other of the two answers the second probe, then \<open>main\<close> does nothing but probe before it
  connects: \<open>launchGodotEditor\<close> is not called, no process is spawned in the whole session,
  \<open>spawnedGodotProcess\<close> stays \<open>null\<close>, and \<open>cleanup\<close> only ends the socket and exits, with
  no attempt to kill anything.
\<close>

theorem reachable_server_never_launched:
  assumes "already_reachable env p"
  shows "(\<exists>st. startup env p = (fst (probeExisting env p) @ [SocketConnect (port st)], Some st)
            \<and> spawnedGodotProcess st = None \<and> cleanup env st = [SocketEnd, Exit 0])
       \<and> (\<forall>e \<in> set (fst (probeExisting env p)). is_probe e)
       \<and> (\<forall>e \<in> set (main env p events). \<not> is_spawn e \<and> \<not> is_kill e)"
proof -
  obtain es q n where pe: "probeExisting env p = (es, q, True, n)"
    using assms unfolding probeExisting_reachable by (cases "probeExisting env p") auto
  define st where "st = \<lparr>port = q, spawnedGodotProcess = None\<rparr>"
  have su: "startup env p = (es @ [SocketConnect q], Some st)"
    by (simp add: startup_def pe st_def)
  have probes: "\<forall>e \<in> set es. is_probe e"
    using probeExisting_probes [of env p] by (simp add: pe)
  have none: "spawnedGodotProcess st = None" by (simp add: st_def)
  have "\<forall>e \<in> set (main env p events). \<not> is_spawn e \<and> \<not> is_kill e"
    using probes handlers_no_child [OF none, of env events] probe_not_spawn
    by (auto simp: main_def su)
  moreover have "startup env p = (fst (probeExisting env p) @ [SocketConnect (port st)], Some st)"
    by (simp add: su pe st_def)
  ultimately show ?thesis
    using probes none cleanup_None [OF none, of env] by (auto simp: pe)
qed

theorem reachable_server_never_launched_witness:
  "already_reachable
     \<lparr>isWindows = False, isLinux = True, display = False, xvfb = True,
      godotFound = Some ''godot'', projectFound = Some ''/game'', portOpen = opens_first,
      childPid = 4242, killThrows = False\<rparr> 6005
   \<and> filter is_spawn (main
     \<lparr>isWindows = False, isLinux = True, display = False, xvfb = True,
      godotFound = Some ''godot'', projectFound = Some ''/game'', portOpen = opens_first,
      childPid = 4242, killThrows = False\<rparr> 6005 [SocketConnected, Signal]) = []
   \<and> filter is_kill (main
     \<lparr>isWindows = False, isLinux = True, display = False, xvfb = True,
      godotFound = Some ''godot'', projectFound = Some ''/game'', portOpen = opens_first,
      childPid = 4242, killThrows = False\<rparr> 6005 [SocketConnected, Signal]) = []"
proof -
  let ?env = "\<lparr>isWindows = False, isLinux = True, display = False, xvfb = True,
      godotFound = Some ''godot'', projectFound = Some ''/game'', portOpen = opens_first,
      childPid = 4242, killThrows = False\<rparr>"
  have h: "already_reachable ?env 6005"
    by (simp add: already_reachable_def opens_first_def)
  show ?thesis
    using h reachable_server_never_launched [OF h, of "[SocketConnected, Signal]"]
    by (simp add: filter_empty_conv)
qed

text \<open>
  C6. Once the handlers are registered, the socket closing gives exit code 0, a signal
  gives exit code 0 and a socket error gives exit code 1, whatever connect events came
  before. When no server is reachable at the start and the executable is not found, or the
  project is not found, or every probe of the waiting loop fails, the exit code is 1.
  Whether the attempt to kill the child throws does not change the exit code.
\<close>

theorem exit_codes:
  "(startup env p = (es, Some st) \<and> set pre \<subseteq> {SocketConnected} \<longrightarrow>
      exit_code (main env p (pre @ SocketClosed # rest)) = Some 0
      \<and> exit_code (main env p (pre @ Signal # rest)) = Some 0
      \<and> exit_code (main env p (pre @ SocketError # rest)) = Some 1)
   \<and> (\<not> already_reachable env p
        \<and> (godotFound env = None \<or> projectFound env = None
           \<or> (\<forall>i. i < maxAttempts \<longrightarrow>
                 \<not> portOpen env ((if p = 6005 \<or> p = 6008 then 2 else 1) + i) p)) \<longrightarrow>
      exit_code (main env p events) = Some 1)
   \<and> exit_code (main (env\<lparr>killThrows := b\<rparr>) p events) = exit_code (main env p events)"
proof (intro conjI impI)
  assume h: "startup env p = (es, Some st) \<and> set pre \<subseteq> {SocketConnected}"
  then have su: "startup env p = (es, Some st)" and pre: "set pre \<subseteq> {SocketConnected}"
    by simp_all
  have ne: "exit_code es = None" by (rule startup_no_exit [OF su])
  have m: "main env p (pre @ evs)
      = es @ concat (map (\<lambda>e. [Log (Connected (port st)), PipeStdin]) pre) @ handlers env st evs"
    for evs
    by (simp add: main_def su handlers_connected [OF pre])
  show "exit_code (main env p (pre @ SocketClosed # rest)) = Some 0"
    by (simp add: m exit_code_append ne exit_code_connected)
  show "exit_code (main env p (pre @ Signal # rest)) = Some 0"
    by (simp add: m exit_code_append ne exit_code_connected cleanup_def
        try_catch_empty_fst killAttempt_def split: option.splits)
  show "exit_code (main env p (pre @ SocketError # rest)) = Some 1"
    by (simp add: m exit_code_append ne exit_code_connected)
next
  assume h: "\<not> already_reachable env p
        \<and> (godotFound env = None \<or> projectFound env = None
           \<or> (\<forall>i. i < maxAttempts \<longrightarrow>
                 \<not> portOpen env ((if p = 6005 \<or> p = 6008 then 2 else 1) + i) p))"
  then have "snd (startup env p) = None"
    by (intro startup_unreachable_fails) auto
  then obtain es where su: "startup env p = (es, None)"
    by (cases "startup env p") auto
  show "exit_code (main env p events) = Some 1"
    using startup_failed [OF su] by (simp add: main_def su)
next
  show "exit_code (main (env\<lparr>killThrows := b\<rparr>) p events) = exit_code (main env p events)"
    by (simp add: main_killThrows)
qed

theorem exit_codes_witness:
  "startup
     \<lparr>isWindows = False, isLinux = True, display = True, xvfb = False,
      godotFound = None, projectFound = None, portOpen = always_open,
      childPid = 4242, killThrows = True\<rparr> 6005
     = ([Probe 6005, SocketConnect 6005], Some \<lparr>port = 6005, spawnedGodotProcess = None\<rparr>)
   \<and> exit_code (main
     \<lparr>isWindows = False, isLinux = True, display = True, xvfb = False,
      godotFound = None, projectFound = None, portOpen = always_open,
      childPid = 4242, killThrows = True\<rparr> 6005 ([SocketConnected] @ SocketClosed # [])) = Some 0
   \<and> exit_code (main
     \<lparr>isWindows = False, isLinux = True, display = True, xvfb = False,
      godotFound = None, projectFound = None, portOpen = always_open,
      childPid = 4242, killThrows = True\<rparr> 6005 ([SocketConnected] @ SocketError # [])) = Some 1
   \<and> \<not> already_reachable
     \<lparr>isWindows = False, isLinux = True, display = True, xvfb = False,
      godotFound = None, projectFound = None, portOpen = never_open,
      childPid = 4242, killThrows = True\<rparr> 6005
   \<and> exit_code (main
     \<lparr>isWindows = False, isLinux = True, display = True, xvfb = False,
      godotFound = None, projectFound = None, portOpen = never_open,
      childPid = 4242, killThrows = True\<rparr> 6005 []) = Some 1"
proof -
  let ?e1 = "\<lparr>isWindows = False, isLinux = True, display = True, xvfb = False,
      godotFound = None, projectFound = None, portOpen = always_open,
      childPid = 4242, killThrows = True\<rparr>"
  let ?e2 = "\<lparr>isWindows = False, isLinux = True, display = True, xvfb = False,
      godotFound = None, projectFound = None, portOpen = never_open,
      childPid = 4242, killThrows = True\<rparr>"
  have s1: "startup ?e1 6005
      = ([Probe 6005, SocketConnect 6005], Some \<lparr>port = 6005, spawnedGodotProcess = None\<rparr>)"
    by (simp add: startup_def probeExisting_def always_open_def)
  have n2: "\<not> already_reachable ?e2 6005"
    by (simp add: already_reachable_def never_open_def)
  show ?thesis
    using s1 n2
      exit_codes [where env = ?e1 and p = 6005 and es = "[Probe 6005, SocketConnect 6005]"
        and st = "\<lparr>port = 6005, spawnedGodotProcess = None\<rparr>"
        and pre = "[SocketConnected]" and rest = "[]" and events = "[]" and b = True]
      exit_codes [where env = ?e2 and p = 6005 and es = "[]"
        and st = "\<lparr>port = 6005, spawnedGodotProcess = None\<rparr>"
        and pre = "[]" and rest = "[]" and events = "[]" and b = True]
    by simp
qed


lemma waitLoop_no_spawn: "\<forall>e \<in> set (fst (waitLoop up q bound i)). \<not> is_spawn e"
proof (induction up q bound i rule: waitLoop.induct)
  case (1 up q bound i)
  show ?case
  proof (cases "i < bound \<and> \<not> up i")
    case True
    then show ?thesis
      using 1 by (auto simp add: waitLoop.simps [of up q bound i] split: prod.splits)
  next
    case False
    then show ?thesis
      by (auto simp add: waitLoop.simps [of up q bound i])
  qed
qed

lemma launch_ok_spawned:
  assumes "launchGodotEditor env q n = (es, sp, True)"
  shows "sp = Some (childPid env) \<and> (\<exists>e \<in> set es. is_spawn e)"
  using assms
  by (auto simp: launchGodotEditor_def split: option.splits prod.splits if_splits)

lemma startup_cases:
  assumes "startup env p = (es, Some st)"
  shows "(spawnedGodotProcess st = None \<and> (\<forall>e \<in> set es. \<not> is_spawn e))
       \<or> (spawnedGodotProcess st = Some (childPid env) \<and> (\<exists>e \<in> set es. is_spawn e))"
proof -
  obtain es0 q running n where pe: "probeExisting env p = (es0, q, running, n)"
    by (cases "probeExisting env p") auto
  have probes: "\<forall>e \<in> set es0. is_probe e"
    using probeExisting_probes [of env p] by (simp add: pe)
  show ?thesis
  proof (cases running)
    case True
    then have "es = es0 @ [SocketConnect q]" "spawnedGodotProcess st = None"
      using assms by (auto simp: startup_def pe)
    then show ?thesis using probes probe_not_spawn by auto
  next
    case False
    obtain es1 sp ok where L: "launchGodotEditor env q n = (es1, sp, ok)"
      by (cases "launchGodotEditor env q n") auto
    have ok using assms False by (auto simp: startup_def pe L split: if_splits)
    then have "sp = Some (childPid env)" "\<exists>e \<in> set es1. is_spawn e"
      using launch_ok_spawned [of env q n es1 sp] L by auto
    moreover have "es = es0 @ es1 @ [SocketConnect q]" "spawnedGodotProcess st = sp"
      using assms False \<open>ok\<close> by (auto simp: startup_def pe L)
    ultimately show ?thesis by auto
  qed
qed

lemma waitLoop_no_kill: "filter is_kill (fst (waitLoop up q bound i)) = []"
proof (induction up q bound i rule: waitLoop.induct)
  case (1 up q bound i)
  show ?case
  proof (cases "i < bound \<and> \<not> up i")
    case True
    then show ?thesis
      using 1 by (auto simp add: waitLoop.simps [of up q bound i] split: prod.splits)
  next
    case False
    then show ?thesis
      by (auto simp add: waitLoop.simps [of up q bound i])
  qed
qed

lemma launch_no_kill: "filter is_kill (fst (launchGodotEditor env q n)) = []"
  using waitLoop_no_kill [of "\<lambda>i. portOpen env (n + i) q" q maxAttempts 0]
  by (auto simp: launchGodotEditor_def split: option.splits prod.splits)

lemma probes_no_kill: "\<forall>e \<in> set es. is_probe e \<Longrightarrow> filter is_kill es = []"
  by (induction es rule: exit_code.induct) auto

lemma startup_no_kill: "filter is_kill (fst (startup env p)) = []"
  using launch_no_kill [of env "fst (snd (probeExisting env p))" "snd (snd (snd (probeExisting env p)))"]
    probes_no_kill [OF probeExisting_probes, of env p]
  by (auto simp: startup_def split: prod.splits if_splits)

lemma filter_take_empty: "filter P xs = [] \<Longrightarrow> filter P (take k xs) = []"
  by (auto simp: filter_empty_conv dest: in_set_takeD)

lemma older_handlers_connected:
  assumes "set pre \<subseteq> {SocketConnected}"
  shows "older_handlers q (pre @ evs)
         = concat (map (\<lambda>e. [Log (Connected q), PipeStdin]) pre) @ older_handlers q evs"
  using assms by (induction pre) auto

lemma exit_code_cleanup: "exit_code (cleanup env st) = Some 0"
  by (simp add: cleanup_def try_catch_empty_fst killAttempt_def exit_code_append
      split: option.splits)

lemma startup_launching:
  "startup
     \<lparr>isWindows = False, isLinux = True, display = True, xvfb = False,
      godotFound = Some ''godot'', projectFound = Some ''/game'', portOpen = opens_third,
      childPid = 4242, killThrows = True\<rparr> 6005
   = ([Probe 6005, Probe 6008, Log Launching, Log (GodotIs ''godot''), Log (ProjectIs ''/game''),
       Log (PortIs 6005), Log (CommandIs ''godot'' (godotArgs 6005 ''/game'')),
       Spawn ''godot'' (godotArgs 6005 ''/game''), Unref, Log Waiting,
       Sleep 500, Probe 6005, Sleep 500, Probe 6005, Log (Ready 6005), SocketConnect 6005],
      Some \<lparr>port = 6005, spawnedGodotProcess = Some 4242\<rparr>)"
  by (simp add: startup_def probeExisting_def launchGodotEditor_def opens_third_def
      waitLoop.simps [of _ _ _ 0] waitLoop.simps [of _ _ _ "Suc 0"] maxAttempts_def)

text \<open>
  C4, as stated, fails in two places. A signal that arrives while the bridge waits for the
  server it has launched finds no handler installed: in the session below it arrives
  during the first probe of the waiting loop, when eleven effects have been performed, the
  bridge ends by the default action of the signal, and nothing has attempted to terminate
  the child 4242, spawned three effects earlier. And a failure to terminate is not logged:
  with a \<open>kill\<close> that throws, \<open>cleanup\<close> logs only the message it writes before the attempt,
  the same as when the kill succeeds, for the \<open>catch\<close> block is empty. The signal handlers
  of the older script make no attempt to terminate anything.
\<close>

theorem signal_cleanup_counterexample:
  "session
     \<lparr>isWindows = False, isLinux = True, display = True, xvfb = False,
      godotFound = Some ''godot'', projectFound = Some ''/game'', portOpen = opens_third,
      childPid = 4242, killThrows = True\<rparr> 6005 (Some 11) []
     = ([Probe 6005, Probe 6008, Log Launching, Log (GodotIs ''godot''), Log (ProjectIs ''/game''),
         Log (PortIs 6005), Log (CommandIs ''godot'' (godotArgs 6005 ''/game'')),
         Spawn ''godot'' (godotArgs 6005 ''/game''), Unref, Log Waiting, Sleep 500],
        DefaultAction)
   \<and> cleanup
     \<lparr>isWindows = False, isLinux = True, display = True, xvfb = False,
      godotFound = Some ''godot'', projectFound = Some ''/game'', portOpen = opens_third,
      childPid = 4242, killThrows = True\<rparr>
     \<lparr>port = 6005, spawnedGodotProcess = Some 4242\<rparr>
     = [SocketEnd, Log CleaningUp, Kill 4242, Exit 0]
   \<and> cleanup
     \<lparr>isWindows = False, isLinux = True, display = True, xvfb = False,
      godotFound = Some ''godot'', projectFound = Some ''/game'', portOpen = opens_third,
      childPid = 4242, killThrows = False\<rparr>
     \<lparr>port = 6005, spawnedGodotProcess = Some 4242\<rparr>
     = [SocketEnd, Log CleaningUp, Kill 4242, Exit 0]
   \<and> older_handlers 6005 [SocketConnected, Signal]
     = [Log (Connected 6005), PipeStdin, SocketEnd, Exit 0]"
  by (simp add: session_def startup_launching cleanup_def killAttempt_def try_catch_empty_def
      older_signal_handler_def)

text \<open>
  C4, amended. The signal handlers are installed at the end of start-up. For a session
  on a port number, a signal that arrives after that ends the session with \<open>cleanup\<close>. If
  the session spawned the server process, \<open>cleanup\<close> ends the socket, logs that it is
  cleaning up, attempts to terminate that process (\<open>taskkill\<close> on Windows, \<open>kill\<close>
  elsewhere) and only then exits with code 0. If the session spawned nothing, \<open>cleanup\<close>
  ends the socket and exits, with no attempt to terminate. A failure of the attempt
  changes nothing: it is caught, nothing is logged for it, and the exit follows. A signal
  that arrives before the handlers are installed ends the bridge by its default action:
  the trace stops there, and no attempt to terminate has been made. In the older script a
  signal ends the socket and exits with code 0, and attempts no termination.
\<close>

theorem signal_terminates_child:
  "(p \<le> 65535 \<and> startup env p = (es, Some st) \<and> set pre \<subseteq> {SocketConnected} \<longrightarrow>
      session env p None (pre @ Signal # rest)
        = (es @ concat (map (\<lambda>e. [Log (Connected (port st)), PipeStdin]) pre) @ cleanup env st,
           ExitCode 0)
      \<and> ((\<exists>e \<in> set es. is_spawn e) \<longrightarrow>
            cleanup env st = [SocketEnd, Log CleaningUp,
              if isWindows env then Taskkill (childPid env) else Kill (childPid env), Exit 0])
      \<and> ((\<forall>e \<in> set es. \<not> is_spawn e) \<longrightarrow> cleanup env st = [SocketEnd, Exit 0]))
   \<and> cleanup (env\<lparr>killThrows := b\<rparr>) st = cleanup env st
   \<and> (p \<le> 65535 \<and> k < length (fst (startup env p)) \<longrightarrow>
        session env p (Some k) events = (take k (fst (startup env p)), DefaultAction)
        \<and> filter is_kill (take k (fst (startup env p))) = [])
   \<and> (set pre \<subseteq> {SocketConnected} \<longrightarrow>
        older_handlers q (pre @ Signal # rest)
          = concat (map (\<lambda>e. [Log (Connected q), PipeStdin]) pre) @ [SocketEnd, Exit 0])"
proof (intro conjI impI)
  assume h: "p \<le> 65535 \<and> startup env p = (es, Some st) \<and> set pre \<subseteq> {SocketConnected}"
  then have su: "startup env p = (es, Some st)" and pre: "set pre \<subseteq> {SocketConnected}"
    by simp_all
  have m: "main env p (pre @ Signal # rest)
        = es @ concat (map (\<lambda>e. [Log (Connected (port st)), PipeStdin]) pre) @ cleanup env st"
    by (simp add: main_def su handlers_connected [OF pre])
  have "exit_code (main env p (pre @ Signal # rest)) = Some 0"
    unfolding m
    by (simp add: exit_code_append startup_no_exit [OF su] exit_code_connected exit_code_cleanup)
  then show "session env p None (pre @ Signal # rest)
        = (es @ concat (map (\<lambda>e. [Log (Connected (port st)), PipeStdin]) pre) @ cleanup env st,
           ExitCode 0)"
    by (simp add: session_def ending_of_def m)
  {
    assume "\<exists>e \<in> set es. is_spawn e"
    then have "spawnedGodotProcess st = Some (childPid env)"
      using startup_cases [OF su] by auto
    then show "cleanup env st = [SocketEnd, Log CleaningUp,
              if isWindows env then Taskkill (childPid env) else Kill (childPid env), Exit 0]"
      by (rule cleanup_Some)
  }
  {
    assume "\<forall>e \<in> set es. \<not> is_spawn e"
    then have "spawnedGodotProcess st = None"
      using startup_cases [OF su] by auto
    then show "cleanup env st = [SocketEnd, Exit 0]"
      by (rule cleanup_None)
  }
next
  show "cleanup (env\<lparr>killThrows := b\<rparr>) st = cleanup env st"
    by (rule cleanup_killThrows)
next
  assume "p \<le> 65535 \<and> k < length (fst (startup env p))"
  then show "session env p (Some k) events = (take k (fst (startup env p)), DefaultAction)"
    by (simp add: session_def)
next
  show "filter is_kill (take k (fst (startup env p))) = []"
    using startup_no_kill by (rule filter_take_empty)
next
  assume "set pre \<subseteq> {SocketConnected}"
  then show "older_handlers q (pre @ Signal # rest)
          = concat (map (\<lambda>e. [Log (Connected q), PipeStdin]) pre) @ [SocketEnd, Exit 0]"
    by (simp add: older_handlers_connected older_signal_handler_def)
qed

theorem signal_terminates_child_witness:
  "(6005 :: nat) \<le> 65535
   \<and> session
     \<lparr>isWindows = False, isLinux = True, display = True, xvfb = False,
      godotFound = Some ''godot'', projectFound = Some ''/game'', portOpen = opens_third,
      childPid = 4242, killThrows = True\<rparr> 6005 None ([SocketConnected] @ Signal # [])
   = ([Probe 6005, Probe 6008, Log Launching, Log (GodotIs ''godot''), Log (ProjectIs ''/game''),
       Log (PortIs 6005), Log (CommandIs ''godot'' (godotArgs 6005 ''/game'')),
       Spawn ''godot'' (godotArgs 6005 ''/game''), Unref, Log Waiting,
       Sleep 500, Probe 6005, Sleep 500, Probe 6005, Log (Ready 6005), SocketConnect 6005,
       Log (Connected 6005), PipeStdin, SocketEnd, Log CleaningUp, Kill 4242, Exit 0], ExitCode 0)
   \<and> session
     \<lparr>isWindows = False, isLinux = True, display = True, xvfb = False,
      godotFound = Some ''godot'', projectFound = Some ''/game'', portOpen = opens_third,
      childPid = 4242, killThrows = True\<rparr> 6005 (Some 12) []
   = ([Probe 6005, Probe 6008, Log Launching, Log (GodotIs ''godot''), Log (ProjectIs ''/game''),
       Log (PortIs 6005), Log (CommandIs ''godot'' (godotArgs 6005 ''/game'')),
       Spawn ''godot'' (godotArgs 6005 ''/game''), Unref, Log Waiting, Sleep 500, Probe 6005],
      DefaultAction)
   \<and> older_handlers 6005 ([SocketConnected] @ Signal # [])
   = [Log (Connected 6005), PipeStdin, SocketEnd, Exit 0]"
  using startup_launching
    signal_terminates_child [where env = "\<lparr>isWindows = False, isLinux = True, display = True, xvfb = False,
      godotFound = Some ''godot'', projectFound = Some ''/game'', portOpen = opens_third,
      childPid = 4242, killThrows = True\<rparr>" and p = 6005
      and es = "[Probe 6005, Probe 6008, Log Launching, Log (GodotIs ''godot''), Log (ProjectIs ''/game''),
       Log (PortIs 6005), Log (CommandIs ''godot'' (godotArgs 6005 ''/game'')),
       Spawn ''godot'' (godotArgs 6005 ''/game''), Unref, Log Waiting,
       Sleep 500, Probe 6005, Sleep 500, Probe 6005, Log (Ready 6005), SocketConnect 6005]"
      and st = "\<lparr>port = 6005, spawnedGodotProcess = Some 4242\<rparr>"
      and pre = "[SocketConnected]" and rest = "[]" and b = False and k = 12 and events = "[]"
      and q = 6005]
  by simp

section \<open>Frames through the interceptor\<close>

lemma prefix_map_inj: "inj f \<Longrightarrow> prefix (map f a) (map f b) \<longleftrightarrow> prefix a b"
proof (induction a arbitrary: b)
  case Nil
  show ?case by simp
next
  case (Cons x a)
  then show ?case by (cases b) (auto simp: inj_eq)
qed

lemma indexOf_map: "inj f \<Longrightarrow> indexOf (map f pat) (map f s) = indexOf pat s"
  by (induction s) (auto simp: prefix_map_inj [of f pat "_ # _", simplified])

lemma indexOf_js: "indexOf (js pat) (js s) = indexOf pat s"
  unfolding js_def by (rule indexOf_map) (rule inj_of_char)

lemma indexOf_bound: "indexOf pat s = Some i \<Longrightarrow> i + length pat \<le> length s"
proof (induction s arbitrary: i)
  case Nil
  then show ?case by (auto split: if_splits)
next
  case (Cons x xs)
  then show ?case by (auto split: if_splits dest: prefix_length_le)
qed

lemma indexOf_at:
  "indexOf pat s = Some i \<Longrightarrow> prefix pat (drop i s)"
proof (induction s arbitrary: i)
  case Nil
  then show ?case by (auto split: if_splits)
next
  case (Cons x xs)
  then show ?case by (auto split: if_splits)
qed

lemma prefix_append_short: "length pat \<le> length s \<Longrightarrow> prefix pat (s @ t) \<longleftrightarrow> prefix pat s"
  by (auto simp: prefix_append)

lemma indexOf_append: "indexOf pat s = Some i \<Longrightarrow> indexOf pat (s @ t) = Some i"
proof (induction s arbitrary: i)
  case Nil
  then show ?case by (cases t) (auto split: if_splits)
next
  case (Cons x xs)
  show ?case
  proof (cases "prefix pat (x # xs)")
    case True
    then have "prefix pat ((x # xs) @ t)" by (rule prefix_prefix)
    with True Cons.prems show ?thesis by simp
  next
    case False
    with Cons.prems obtain j where j: "indexOf pat xs = Some j" "i = Suc j" by auto
    have np: "\<not> prefix pat ((x # xs) @ t)"
    proof
      assume p: "prefix pat ((x # xs) @ t)"
      have "length pat \<le> length (x # xs)"
        using indexOf_bound [OF j(1)] by simp
      then have "prefix pat (x # xs)"
        using p prefix_append_short [of pat "x # xs" t] by simp
      with False show False by simp
    qed
    show ?thesis using np j Cons.IH [OF j(1)] by simp
  qed
qed


lemma decode_ascii_append:
  "\<forall>b \<in> set a. b < 128 \<Longrightarrow> utf8_decode (a @ x) = a @ utf8_decode x"
  by (induction a) auto

lemma toString_ascii_append: "ascii a \<Longrightarrow> toString (a @ x) = js a @ toString x"
  unfolding toString_def js_def ascii_def list_all_iff by (simp add: decode_ascii_append)

lemma encode_ascii: "\<forall>u \<in> set us. u < 128 \<Longrightarrow> utf8_encode us = us"
  by (induction us rule: utf8_encode.induct)
    (auto simp: enc_unit_def enc_cp_def is_high_def is_low_def)

lemma fromString_ascii_units: "\<forall>u \<in> set us. u < 128 \<Longrightarrow> fromString us = map char_of us"
  by (simp add: fromString_def encode_ascii)

lemma char_of_js: "map char_of (js a) = a"
  by (simp add: js_def comp_def)

lemma js_append: "js (a @ b) = js a @ js b"
  by (simp add: js_def)

lemma length_js: "length (js a) = length a"
  by (simp add: js_def)

lemma js_units_ascii: "ascii a \<Longrightarrow> \<forall>u \<in> set (js a). u < 128"
  by (auto simp: js_def ascii_def list_all_iff)

lemma ascii_append: "ascii (a @ b) \<longleftrightarrow> ascii a \<and> ascii b"
  by (simp add: ascii_def)

lemma decimal_digits: "\<forall>u \<in> set (decimal n). is_digit u"
proof (induction n rule: decimal.induct)
  case (1 n)
  then show ?case
    by (subst decimal.simps) (auto simp: is_digit_def)
qed

lemma decimal_nonempty: "decimal n \<noteq> []"
  by (subst decimal.simps) simp



lemma cl_crlf_here_noprefix: "\<not> prefix (js cl_lit) s \<Longrightarrow> cl_crlf_here s = None"
  by (simp add: cl_crlf_here_def)

lemma contentLengthMatch_at:
  "indexOf (js cl_lit) s = Some i \<Longrightarrow> cl_crlf_here (drop i s) = Some ds
   \<Longrightarrow> contentLengthMatch s = Some ds"
proof (induction s arbitrary: i)
  case Nil
  then show ?case by (simp add: js_def cl_lit_def)
next
  case (Cons x xs)
  show ?case
  proof (cases "prefix (js cl_lit) (x # xs)")
    case True
    with Cons.prems show ?thesis by simp
  next
    case False
    with Cons.prems obtain j where j: "indexOf (js cl_lit) xs = Some j" "i = Suc j" by auto
    with Cons.prems have "cl_crlf_here (drop j xs) = Some ds" by simp
    then have "contentLengthMatch xs = Some ds" using Cons.IH j(1) by blast
    then show ?thesis using cl_crlf_here_noprefix [OF False] by simp
  qed
qed

lemma replaceContentLength_at:
  "indexOf (js cl_lit) s = Some i \<Longrightarrow> takeWhile is_digit (drop 16 (drop i s)) \<noteq> []
   \<Longrightarrow> replaceContentLength rep s = take i s @ rep @ dropWhile is_digit (drop 16 (drop i s))"
proof (induction s arbitrary: i)
  case Nil
  then show ?case by simp
next
  case (Cons x xs)
  show ?case
  proof (cases "prefix (js cl_lit) (x # xs)")
    case True
    with Cons.prems show ?thesis by simp
  next
    case False
    with Cons.prems obtain j where j: "indexOf (js cl_lit) xs = Some j" "i = Suc j" by auto
    with Cons.prems have "takeWhile is_digit (drop 16 (drop j xs)) \<noteq> []" by simp
    then have "replaceContentLength rep xs = take j xs @ rep @ dropWhile is_digit (drop 16 (drop j xs))"
      using Cons.IH j(1) by blast
    then show ?thesis using False j by simp
  qed
qed


lemma js_nonempty: "a \<noteq> [] \<Longrightarrow> js a \<noteq> []"
  by (simp add: js_def)

lemma js_digits: "list_all (\<lambda>c. is_digit (of_char c)) ds \<Longrightarrow> \<forall>u \<in> set (js ds). is_digit u"
  by (auto simp: js_def list_all_iff)

lemma ascii_digits: "list_all (\<lambda>c. is_digit (of_char c)) ds \<Longrightarrow> ascii ds"
  by (auto simp: ascii_def list_all_iff is_digit_def)

lemma ascii_cl_lit: "ascii cl_lit"
  by (simp add: ascii_def cl_lit_def)

lemma ascii_crlfcrlf: "ascii crlfcrlf"
  by (simp add: ascii_def crlfcrlf_def crlf_def)

lemma valid_header_ascii: "valid_frame f \<Longrightarrow> ascii (header_text f)"
  by (simp add: valid_frame_def header_text_def ascii_append ascii_cl_lit ascii_digits)

lemma tail_starts_crlf:
  "a = [] \<or> prefix crlf a \<Longrightarrow> \<exists>Z. js a @ js crlfcrlf @ X = 13 # 10 # Z"
  by (auto simp: js_def crlf_def crlfcrlf_def prefix_def)

lemma not_digit_13: "\<not> is_digit 13"
  by (simp add: is_digit_def)

lemma cl_crlf_here_match:
  assumes "\<forall>u \<in> set D. is_digit u" "D \<noteq> []"
  shows "cl_crlf_here (js cl_lit @ D @ 13 # 10 # Z) = Some D"
proof -
  have d: "drop 16 (js cl_lit @ D @ 13 # 10 # Z) = D @ 13 # 10 # Z"
    by (simp add: js_def cl_lit_def)
  have t: "takeWhile is_digit (D @ 13 # 10 # Z) = D"
    using assms(1) by (simp add: takeWhile_append2 not_digit_13)
  have r: "dropWhile is_digit (D @ 13 # 10 # Z) = 13 # 10 # Z"
    using assms(1) by (simp add: dropWhile_append2 not_digit_13)
  show ?thesis
    unfolding cl_crlf_here_def d t r using assms(2) by (simp add: js_def crlf_def)
qed

lemma valid_literal_index:
  assumes "valid_frame f"
  shows "indexOf (js cl_lit) (js (before_length f) @ js cl_lit @ W) = Some (length (before_length f))"
proof -
  have "indexOf (js cl_lit) (js (before_length f @ cl_lit)) = Some (length (before_length f))"
    using assms by (simp add: indexOf_js valid_frame_def)
  then have "indexOf (js cl_lit) (js (before_length f @ cl_lit) @ W) = Some (length (before_length f))"
    by (rule indexOf_append)
  then show ?thesis by (simp add: js_append)
qed

lemma valid_match:
  assumes "valid_frame f"
  shows "contentLengthMatch (js (header_text f) @ js crlfcrlf @ X) = Some (js (length_digits f))"
proof -
  obtain Z where Z: "js (after_length f) @ js crlfcrlf @ X = 13 # 10 # Z"
    using tail_starts_crlf [of "after_length f" X] assms by (auto simp: valid_frame_def)
  have s: "js (header_text f) @ js crlfcrlf @ X
      = js (before_length f) @ js cl_lit @ js (length_digits f) @ 13 # 10 # Z"
    using Z by (simp add: header_text_def js_append)
  have dg: "\<forall>u \<in> set (js (length_digits f)). is_digit u" "js (length_digits f) \<noteq> []"
    using assms js_digits [of "length_digits f"] js_nonempty [of "length_digits f"]
    by (simp_all add: valid_frame_def)
  have "cl_crlf_here (drop (length (before_length f))
          (js (before_length f) @ js cl_lit @ js (length_digits f) @ 13 # 10 # Z))
        = Some (js (length_digits f))"
    using cl_crlf_here_match [OF dg] by (simp add: length_js)
  then show ?thesis
    unfolding s using valid_literal_index [OF assms] by (rule contentLengthMatch_at [rotated])
qed

lemma valid_delimiter:
  assumes "valid_frame f"
  shows "indexOf (js crlfcrlf) (js (header_text f) @ js crlfcrlf @ X) = Some (length (header_text f))"
proof -
  have "indexOf (js crlfcrlf) (js (header_text f @ crlfcrlf)) = Some (length (header_text f))"
    using assms by (simp add: indexOf_js valid_frame_def)
  then have "indexOf (js crlfcrlf) (js (header_text f @ crlfcrlf) @ X) = Some (length (header_text f))"
    by (rule indexOf_append)
  then show ?thesis by (simp add: js_append)
qed

lemma valid_replace:
  assumes "valid_frame f"
  shows "replaceContentLength rep (js (header_text f))
         = js (before_length f) @ rep @ js (after_length f)"
proof -
  have dg: "\<forall>u \<in> set (js (length_digits f)). is_digit u" "js (length_digits f) \<noteq> []"
    using assms js_digits [of "length_digits f"] js_nonempty [of "length_digits f"]
    by (simp_all add: valid_frame_def)
  have nd: "dropWhile is_digit (js (after_length f)) = js (after_length f)"
       "takeWhile is_digit (js (after_length f)) = []"
    using assms by (auto simp: valid_frame_def js_def crlf_def prefix_def is_digit_def)
  have i: "indexOf (js cl_lit) (js (header_text f)) = Some (length (before_length f))"
    using valid_literal_index [OF assms, of "js (length_digits f) @ js (after_length f)"]
    by (simp add: header_text_def js_append)
  have d: "drop 16 (drop (length (before_length f)) (js (header_text f)))
      = js (length_digits f) @ js (after_length f)"
    by (simp add: header_text_def js_append length_js) (simp add: js_def cl_lit_def)
  have t: "takeWhile is_digit (js (length_digits f) @ js (after_length f)) = js (length_digits f)"
    using dg(1) nd by (simp add: takeWhile_append2)
  have r: "dropWhile is_digit (js (length_digits f) @ js (after_length f)) = js (after_length f)"
    using dg(1) nd by (simp add: dropWhile_append2)
  have "replaceContentLength rep (js (header_text f))
      = take (length (before_length f)) (js (header_text f)) @ rep
        @ dropWhile is_digit (drop 16 (drop (length (before_length f)) (js (header_text f))))"
    using i by (rule replaceContentLength_at) (unfold d t, rule dg(2))
  then show ?thesis
    unfolding d r by (simp add: header_text_def js_append length_js)
qed

lemma rewritten_header_bytes:
  assumes "valid_frame f"
  shows "fromString (js (before_length f) @ js cl_lit @ decimal n @ js (after_length f) @ js crlfcrlf)
         = before_length f @ cl_lit @ map char_of (decimal n) @ after_length f @ crlfcrlf"
proof -
  have "\<forall>u \<in> set (decimal n). u < 128"
    using decimal_digits [of n] by (auto simp: is_digit_def)
  then have "\<forall>u \<in> set (js (before_length f) @ js cl_lit @ decimal n @ js (after_length f) @ js crlfcrlf).
      u < 128"
    using assms js_units_ascii [OF ascii_cl_lit] js_units_ascii [OF ascii_crlfcrlf]
      js_units_ascii [of "before_length f"] js_units_ascii [of "after_length f"]
    by (auto simp: valid_frame_def)
  then show ?thesis
    by (simp add: fromString_ascii_units char_of_js)
qed

lemma slice_middle: "slice (length xs) (length xs + length b) (xs @ b @ r) = b"
  by (simp add: slice_def)

lemma step_valid:
  assumes "valid_frame f"
  shows "interceptor_step (frame_bytes f @ rest) = Some (expected_output f, rest)"
proof -
  let ?h = "header_text f"
  have str: "toString (frame_bytes f @ rest)
      = js ?h @ js crlfcrlf @ toString (frame_body f @ rest)"
    using toString_ascii_append [of "?h @ crlfcrlf" "frame_body f @ rest"]
      valid_header_ascii [OF assms] ascii_crlfcrlf
    by (simp add: frame_bytes_def ascii_append js_append)
  have m: "contentLengthMatch (toString (frame_bytes f @ rest)) = Some (js (length_digits f))"
    unfolding str by (rule valid_match [OF assms])
  have e: "indexOf (js crlfcrlf) (toString (frame_bytes f @ rest)) = Some (length ?h)"
    unfolding str by (rule valid_delimiter [OF assms])
  have n: "parseInt (js (length_digits f)) = length (frame_body f)"
    using assms by (simp add: valid_frame_def)
  have l4: "length (?h @ crlfcrlf) = length ?h + 4"
    by (simp add: crlfcrlf_def crlf_def)
  have len: "length (frame_bytes f) = length ?h + 4 + length (frame_body f)"
    by (simp add: frame_bytes_def crlfcrlf_def crlf_def)
  have sl: "slice (length ?h + 4) (length ?h + 4 + length (frame_body f)) (frame_bytes f @ rest)
      = frame_body f"
    using slice_middle [of "?h @ crlfcrlf" "frame_body f" rest] unfolding l4
    by (simp add: frame_bytes_def)
  have tk: "take (length ?h + 4 + length (frame_body f)) (frame_bytes f @ rest) = frame_bytes f"
    using len by simp
  have dr: "drop (length ?h + 4 + length (frame_body f)) (frame_bytes f @ rest) = rest"
    using len by simp
  have hd: "take (length ?h) (toString (frame_bytes f @ rest)) = js ?h"
    unfolding str by (simp add: length_js)
  show ?thesis
    unfolding interceptor_step_def Let_def m e n sl tk dr hd option.case
    using len
    by (simp add: expected_output_def valid_replace [OF assms] rewritten_header_bytes [OF assms]
        rewritten_body_def)
qed


lemma stable_ext_Nil: "stable_ext [] s'"
  by (auto simp: stable_ext_def)

lemma stable_ext_replacement: "stable_ext [0xFFFD] s'"
  unfolding stable_ext_def by (rule exI [of _ "[]"]) simp

lemma stable_ext_prepend: "stable_ext s s' \<Longrightarrow> stable_ext (u @ s) (u @ s')"
  unfolding stable_ext_def
  by (elim exE conjE) (metis append.assoc)

lemma stable_ext_Cons: "stable_ext s s' \<Longrightarrow> stable_ext (x # s) (x # s')"
  using stable_ext_prepend [of s s' "[x]"] by simp

lemma cont_scan_extend:
  "cont_scan n lo hi cp bs = ([0xFFFD], [])
   \<or> cont_scan n lo hi cp (bs @ c) = (fst (cont_scan n lo hi cp bs), snd (cont_scan n lo hi cp bs) @ c)"
  by (induction n lo hi cp bs rule: cont_scan.induct) auto

lemma utf8_decode_stable: "stable_ext (utf8_decode b) (utf8_decode (b @ c))"
proof (induction "length b" arbitrary: b rule: less_induct)
  case less
  show ?case
  proof (cases b)
    case Nil
    then show ?thesis by (simp add: stable_ext_Nil)
  next
    case (Cons x bs)
    have tail: "stable_ext (utf8_decode bs) (utf8_decode (bs @ c))"
      using less [of bs] Cons by simp
    have multi: "stable_ext (case cont_scan n lo hi cp bs of (us, r) \<Rightarrow> us @ utf8_decode r)
                  (case cont_scan n lo hi cp (bs @ c) of (us, r) \<Rightarrow> us @ utf8_decode r)"
      for n lo hi cp
    proof -
      consider (trunc) "cont_scan n lo hi cp bs = ([0xFFFD], [])"
        | (complete) "cont_scan n lo hi cp (bs @ c)
             = (fst (cont_scan n lo hi cp bs), snd (cont_scan n lo hi cp bs) @ c)"
        using cont_scan_extend [of n lo hi cp bs c] by blast
      then show ?thesis
      proof cases
        case trunc
        then show ?thesis by (simp add: stable_ext_replacement)
      next
        case complete
        obtain us r where ur: "cont_scan n lo hi cp bs = (us, r)"
          by (cases "cont_scan n lo hi cp bs") auto
        have "length r \<le> length bs"
          using cont_scan_length [of n lo hi cp bs] ur by simp
        then have "stable_ext (utf8_decode r) (utf8_decode (r @ c))"
          using less [of r] Cons by simp
        then show ?thesis
          using complete ur by (simp add: stable_ext_prepend)
      qed
    qed
    show ?thesis
      unfolding Cons using tail multi by (simp add: stable_ext_Cons)
  qed
qed

lemma toString_stable: "stable_ext (toString b) (toString (b @ c))"
  unfolding toString_def using utf8_decode_stable [of "map of_char b" "map of_char c"] by simp

lemma prefix_snoc_other: "x \<notin> set pat \<Longrightarrow> prefix pat (s @ [x]) \<longleftrightarrow> prefix pat s"
  by (auto simp: prefix_snoc)

lemma indexOf_snoc_other:
  "x \<notin> set pat \<Longrightarrow> indexOf pat (p @ [x]) = Some i \<Longrightarrow> indexOf pat p = Some i"
proof (induction p arbitrary: i)
  case Nil
  then show ?case by (cases pat) (auto split: if_splits)
next
  case (Cons y ys)
  have "prefix pat ((y # ys) @ [x]) \<longleftrightarrow> prefix pat (y # ys)"
    using Cons.prems(1) by (rule prefix_snoc_other)
  then show ?case using Cons by (auto split: if_splits)
qed

lemma indexOf_stable:
  assumes "stable_ext s s'" "0xFFFD \<notin> set pat" "indexOf pat s = Some i"
  shows "indexOf pat s' = Some i \<and> take i s' = take i s"
proof -
  obtain p t where pt: "s' = p @ t" "s = p \<or> s = p @ [0xFFFD]"
    using assms(1) by (auto simp: stable_ext_def)
  have ip: "indexOf pat p = Some i"
    using pt(2) assms(2,3) indexOf_snoc_other [of "0xFFFD" pat p i] by auto
  then have "i \<le> length p" using indexOf_bound [OF ip] by simp
  then have "take i s' = take i s" using pt by auto
  then show ?thesis using indexOf_append [OF ip, of t] pt(1) by simp
qed


lemma cl_crlf_here_Some_iff:
  "cl_crlf_here z = Some d
   \<longleftrightarrow> (\<exists>w. z = js cl_lit @ d @ 13 # 10 # w) \<and> d \<noteq> [] \<and> (\<forall>u \<in> set d. is_digit u)"
proof
  assume a: "cl_crlf_here z = Some d"
  then have p: "prefix (js cl_lit) z" and ne: "takeWhile is_digit (drop 16 z) \<noteq> []"
    and c: "prefix (js crlf) (dropWhile is_digit (drop 16 z))"
    and d: "d = takeWhile is_digit (drop 16 z)"
    by (auto simp: cl_crlf_here_def split: if_splits)
  from p obtain r where r: "z = js cl_lit @ r" by (auto simp: prefix_def)
  have dr: "drop 16 z = r" unfolding r by (simp add: js_def cl_lit_def)
  from c obtain w where w: "dropWhile is_digit r = 13 # 10 # w"
    unfolding dr by (auto simp: prefix_def js_def crlf_def)
  have "r = takeWhile is_digit r @ dropWhile is_digit r" by simp
  then have "r = d @ 13 # 10 # w" unfolding w d dr .
  then have z: "z = js cl_lit @ d @ 13 # 10 # w" using r by simp
  have dn: "d \<noteq> []" unfolding d by (rule ne)
  have dd: "\<forall>u \<in> set d. is_digit u" unfolding d by (auto dest: set_takeWhileD)
  show "(\<exists>w. z = js cl_lit @ d @ 13 # 10 # w) \<and> d \<noteq> [] \<and> (\<forall>u \<in> set d. is_digit u)"
    using z dn dd by blast
next
  assume "(\<exists>w. z = js cl_lit @ d @ 13 # 10 # w) \<and> d \<noteq> [] \<and> (\<forall>u \<in> set d. is_digit u)"
  then obtain w where z: "z = js cl_lit @ d @ 13 # 10 # w"
    and d: "\<forall>u \<in> set d. is_digit u" "d \<noteq> []" by blast
  show "cl_crlf_here z = Some d"
    unfolding z by (rule cl_crlf_here_match [OF d])
qed

lemma cl_crlf_here_append:
  assumes "cl_crlf_here s = Some d"
  shows "cl_crlf_here (s @ t) = Some d"
proof -
  from assms obtain w where w: "s = js cl_lit @ d @ 13 # 10 # w"
    and d: "\<forall>u \<in> set d. is_digit u" "d \<noteq> []"
    using cl_crlf_here_Some_iff [of s d] by blast
  have "s @ t = js cl_lit @ d @ 13 # 10 # (w @ t)" using w by simp
  then show ?thesis using cl_crlf_here_match [OF d] by simp
qed

lemma no_C_in_match_tail:
  assumes "\<forall>u \<in> set d. is_digit u"
  shows "67 \<notin> set (tl (js cl_lit @ d @ [13, 10]))"
proof -
  have t: "tl (js cl_lit @ d @ [13, 10]) = tl (js cl_lit) @ d @ [13, 10]"
    by (simp add: js_def cl_lit_def)
  have a: "67 \<notin> set (tl (js cl_lit))" by (simp add: js_def cl_lit_def)
  have b: "67 \<notin> set d"
  proof
    assume "67 \<in> set d"
    then have "is_digit 67" using assms by blast
    then show False by (simp add: is_digit_def)
  qed
  show ?thesis unfolding t using a b by simp
qed

lemma cl_crlf_here_shrink:
  assumes "cl_crlf_here (s @ t) = Some d" "67 \<in> set (tl s)"
  shows "cl_crlf_here s = Some d"
proof -
  from assms(1) obtain w0 where "s @ t = js cl_lit @ d @ 13 # 10 # w0"
    and d: "d \<noteq> []" "\<forall>u \<in> set d. is_digit u"
    using cl_crlf_here_Some_iff [of "s @ t" d] by blast
  then obtain w where w: "s @ t = (js cl_lit @ d @ [13, 10]) @ w" by simp
  let ?m = "js cl_lit @ d @ [13, 10]"
  from w consider us where "s = ?m @ us" | us where "s @ us = ?m"
    unfolding append_eq_append_conv2 by blast
  then show ?thesis
  proof cases
    case 1
    then have "s = js cl_lit @ d @ 13 # 10 # us" by simp
    then show ?thesis using cl_crlf_here_match [OF d(2) d(1)] by simp
  next
    case 2
    have "s \<noteq> []" using assms(2) by auto
    moreover have "tl (s @ us) = tl ?m" using 2 by simp
    ultimately have "tl s @ us = tl ?m" by simp
    then have "set (tl s) \<union> set us = set (tl ?m)" by (simp only: set_append [symmetric])
    then have "set (tl s) \<subseteq> set (tl ?m)" by blast
    then show ?thesis using assms(2) no_C_in_match_tail [OF d(2)] by auto
  qed
qed

lemma contentLengthMatch_has_C: "contentLengthMatch z = Some ds \<Longrightarrow> 67 \<in> set z"
proof (induction z)
  case Nil
  then show ?case by simp
next
  case (Cons x xs)
  show ?case
  proof (cases "cl_crlf_here (x # xs)")
    case None
    then show ?thesis using Cons by simp
  next
    case (Some d)
    then have "prefix (js cl_lit) (x # xs)" by (auto simp: cl_crlf_here_def split: if_splits)
    then show ?thesis by (simp add: js_def cl_lit_def)
  qed
qed

lemma contentLengthMatch_append:
  "contentLengthMatch s = Some ds \<Longrightarrow> contentLengthMatch (s @ t) = Some ds"
proof (induction s)
  case Nil
  then show ?case by simp
next
  case (Cons x xs)
  show ?case
  proof (cases "cl_crlf_here (x # xs)")
    case (Some d)
    then show ?thesis using Cons.prems cl_crlf_here_append [OF Some, of t] by simp
  next
    case None
    then have m: "contentLengthMatch xs = Some ds" using Cons.prems by simp
    have "cl_crlf_here ((x # xs) @ t) = None"
    proof (cases "cl_crlf_here ((x # xs) @ t)")
      case (Some d')
      then have "cl_crlf_here (x # xs) = Some d'"
        using cl_crlf_here_shrink [of "x # xs" t d'] contentLengthMatch_has_C [OF m] by simp
      with None show ?thesis by simp
    qed simp
    then show ?thesis using Cons.IH [OF m] by simp
  qed
qed

lemma cl_crlf_here_snoc_replacement:
  assumes "cl_crlf_here (s @ [0xFFFD]) = Some d"
  shows "cl_crlf_here s = Some d"
proof -
  from assms obtain w where w: "s @ [0xFFFD] = js cl_lit @ d @ 13 # 10 # w"
    and d: "d \<noteq> []" "\<forall>u \<in> set d. is_digit u"
    using cl_crlf_here_Some_iff [of "s @ [0xFFFD]" d] by blast
  show ?thesis
  proof (cases w rule: rev_cases)
    case Nil
    then have "last (s @ [0xFFFD]) = last (js cl_lit @ d @ [13, 10])" using w by simp
    then show ?thesis by simp
  next
    case (snoc w' x)
    then have "s @ [0xFFFD] = (js cl_lit @ d @ 13 # 10 # w') @ [x]" using w by simp
    then have "s = js cl_lit @ d @ 13 # 10 # w'" by (simp only: append1_eq_conv)
    then show ?thesis using cl_crlf_here_match [OF d(2) d(1)] by simp
  qed
qed

lemma contentLengthMatch_snoc_replacement:
  "contentLengthMatch (p @ [0xFFFD]) = Some ds \<Longrightarrow> contentLengthMatch p = Some ds"
proof (induction p)
  case Nil
  have "\<not> prefix (js cl_lit) [0xFFFD]" by (simp add: js_def cl_lit_def)
  then have "cl_crlf_here [0xFFFD] = None" by (rule cl_crlf_here_noprefix)
  then show ?case using Nil by simp
next
  case (Cons x xs)
  show ?case
  proof (cases "cl_crlf_here ((x # xs) @ [0xFFFD])")
    case (Some d)
    then have "cl_crlf_here (x # xs) = Some d" by (rule cl_crlf_here_snoc_replacement)
    then show ?thesis using Some Cons.prems by simp
  next
    case None
    then have "contentLengthMatch (xs @ [0xFFFD]) = Some ds" using Cons.prems by simp
    then have m: "contentLengthMatch xs = Some ds" by (rule Cons.IH)
    have "cl_crlf_here (x # xs) = None"
    proof (cases "cl_crlf_here (x # xs)")
      case (Some d')
      then show ?thesis using cl_crlf_here_append [OF Some, of "[0xFFFD]"] None by simp
    qed simp
    then show ?thesis using m by simp
  qed
qed

lemma contentLengthMatch_stable:
  assumes "stable_ext s s'" "contentLengthMatch s = Some ds"
  shows "contentLengthMatch s' = Some ds"
proof -
  obtain p t where pt: "s' = p @ t" "s = p \<or> s = p @ [0xFFFD]"
    using assms(1) by (auto simp: stable_ext_def)
  have "contentLengthMatch p = Some ds"
    using pt(2) assms(2) contentLengthMatch_snoc_replacement [of p ds] by auto
  then show ?thesis unfolding pt(1) by (rule contentLengthMatch_append)
qed


lemma no_replacement_in_delimiter: "0xFFFD \<notin> set (js crlfcrlf)"
  by (simp add: js_def crlfcrlf_def crlf_def)

lemma interceptor_step_append:
  assumes "interceptor_step b = Some (out, rest)"
  shows "interceptor_step (b @ c) = Some (out, rest @ c)"
proof -
  from assms obtain ds where m: "contentLengthMatch (toString b) = Some ds"
    by (auto simp: interceptor_step_def Let_def split: option.splits)
  from assms m obtain i where e: "indexOf (js crlfcrlf) (toString b) = Some i"
    by (auto simp: interceptor_step_def Let_def split: option.splits)
  define n where "n = i + 4 + parseInt ds"
  have len: "n \<le> length b"
    using assms m e by (auto simp: interceptor_step_def Let_def n_def split: if_splits)
  have st: "stable_ext (toString b) (toString (b @ c))" by (rule toString_stable)
  have m': "contentLengthMatch (toString (b @ c)) = Some ds"
    using st m by (rule contentLengthMatch_stable)
  have e': "indexOf (js crlfcrlf) (toString (b @ c)) = Some i"
    and hd: "take i (toString (b @ c)) = take i (toString b)"
    using indexOf_stable [OF st no_replacement_in_delimiter e] by simp_all
  have sl: "slice (i + 4) n (b @ c) = slice (i + 4) n b"
    using len by (simp add: slice_def)
  have tk: "take n (b @ c) = take n b" using len by simp
  have dr: "drop n (b @ c) = drop n b @ c" using len by simp
  have nl: "\<not> length (b @ c) < n" using len by simp
  have nl0: "\<not> length b < n" using len by simp
  have "interceptor_step (b @ c)
      = (case interceptor_step b of None \<Rightarrow> None | Some (out, rest) \<Rightarrow> Some (out, rest @ c))"
    unfolding interceptor_step_def Let_def m m' e e' option.case n_def [symmetric]
      hd sl tk dr if_not_P [OF nl] if_not_P [OF nl0]
    by simp
  then show ?thesis using assms by simp
qed

lemma interceptor_loop_append:
  "interceptor_loop (b @ c)
   = (case interceptor_loop b of
        (o1, r1) \<Rightarrow> (case interceptor_loop (r1 @ c) of (o2, fin) \<Rightarrow> (o1 @ o2, fin)))"
proof (induction b rule: interceptor_loop.induct)
  case (1 b)
  show ?case
  proof (cases "interceptor_step b")
    case None
    then have "interceptor_loop b = ([], b)" by (simp add: interceptor_loop.simps [of b])
    then show ?thesis by (simp split: prod.splits)
  next
    case (Some a)
    obtain out rest where a: "a = (out, rest)" by (cases a) auto
    have s: "interceptor_step b = Some (out, rest)" using Some a by simp
    have s': "interceptor_step (b @ c) = Some (out, rest @ c)"
      using s by (rule interceptor_step_append)
    have ih: "interceptor_loop (rest @ c)
      = (case interceptor_loop rest of
           (o1, r1) \<Rightarrow> (case interceptor_loop (r1 @ c) of (o2, fin) \<Rightarrow> (o1 @ o2, fin)))"
      using 1 [OF s refl] .
    show ?thesis
      by (simp add: interceptor_loop.simps [of b] interceptor_loop.simps [of "b @ c"] s s' ih
          split: prod.splits)
  qed
qed

lemma interceptor_loop_final: "interceptor_step (snd (interceptor_loop b)) = None"
proof (induction b rule: interceptor_loop.induct)
  case (1 b)
  show ?case
  proof (cases "interceptor_step b")
    case None
    then show ?thesis by (simp add: interceptor_loop.simps [of b])
  next
    case (Some a)
    obtain out rest where a: "a = (out, rest)" by (cases a) auto
    have s: "interceptor_step b = Some (out, rest)" using Some a by simp
    show ?thesis
      using 1 [OF s refl] by (auto simp add: interceptor_loop.simps [of b] s split: prod.splits)
  qed
qed

lemma feed_as_loop:
  assumes "interceptor_step buf = None"
  shows "feed buf chunks = interceptor_loop (buf @ concat chunks)"
  using assms
proof (induction chunks arbitrary: buf)
  case Nil
  then show ?case by (simp add: interceptor_loop.simps [of buf])
next
  case (Cons c cs)
  obtain o1 b1 where t: "interceptor_loop (buf @ c) = (o1, b1)"
    by (cases "interceptor_loop (buf @ c)") auto
  have "interceptor_step b1 = None"
    using interceptor_loop_final [of "buf @ c"] t by simp
  then have ih: "feed b1 cs = interceptor_loop (b1 @ concat cs)" by (rule Cons.IH)
  have "interceptor_loop ((buf @ c) @ concat cs)
      = (case interceptor_loop (b1 @ concat cs) of (o2, fin) \<Rightarrow> (o1 @ o2, fin))"
    using interceptor_loop_append [of "buf @ c" "concat cs"] t by simp
  then show ?case by (simp add: transform_def t ih)
qed

lemma interceptor_step_empty: "interceptor_step [] = None"
  by (simp add: interceptor_step_def toString_def)

lemma createLspInterceptor_as_loop: "createLspInterceptor chunks = interceptor_loop (concat chunks)"
  using feed_as_loop [OF interceptor_step_empty, of chunks] by (simp add: createLspInterceptor_def)

lemma loop_valid_frames:
  assumes "list_all valid_frame fs"
  shows "interceptor_loop (concat (map frame_bytes fs) @ rest)
         = (concat (map expected_output fs) @ fst (interceptor_loop rest), snd (interceptor_loop rest))"
  using assms
proof (induction fs)
  case Nil
  then show ?case by simp
next
  case (Cons f fs)
  then have v: "valid_frame f" and ih: "interceptor_loop (concat (map frame_bytes fs) @ rest)
         = (concat (map expected_output fs) @ fst (interceptor_loop rest), snd (interceptor_loop rest))"
    by simp_all
  have "interceptor_step (frame_bytes f @ concat (map frame_bytes fs) @ rest)
      = Some (expected_output f, concat (map frame_bytes fs) @ rest)"
    by (rule step_valid [OF v])
  then show ?case
    by (simp add: interceptor_loop.simps [of "frame_bytes f @ concat (map frame_bytes fs) @ rest"] ih)
qed

lemma chunks_of_frames:
  assumes "list_all valid_frame fs" "concat chunks = concat (map frame_bytes fs)"
  shows "createLspInterceptor chunks = (concat (map expected_output fs), [])"
proof -
  have e: "interceptor_loop [] = ([], [])"
    by (simp add: interceptor_loop.simps [of "[]"] interceptor_step_empty)
  show ?thesis
    using loop_valid_frames [of fs "[]"] assms by (simp add: createLspInterceptor_as_loop e)
qed

text \<open>
  C1. However a byte stream is cut into chunks, the interceptor pushes the same buffers,
  in the same order, and keeps the same bytes, as when the stream arrives in one chunk.
  When the stream is a sequence of valid frames, what is pushed is the expected output of
  the first frame, then of the second, and so on, and nothing is left in the buffer.
\<close>

theorem chunk_boundaries_do_not_matter:
  "createLspInterceptor chunks = createLspInterceptor [concat chunks]
   \<and> (list_all valid_frame fs \<and> concat chunks = concat (map frame_bytes fs) \<longrightarrow>
        createLspInterceptor chunks = (concat (map expected_output fs), []))"
proof (intro conjI impI)
  show "createLspInterceptor chunks = createLspInterceptor [concat chunks]"
    by (simp add: createLspInterceptor_as_loop)
next
  assume h: "list_all valid_frame fs \<and> concat chunks = concat (map frame_bytes fs)"
  have e: "interceptor_loop [] = ([], [])"
    by (simp add: interceptor_loop.simps [of "[]"] interceptor_step_empty)
  show "createLspInterceptor chunks = (concat (map expected_output fs), [])"
    using loop_valid_frames [of fs "[]"] h by (simp add: createLspInterceptor_as_loop e)
qed


theorem chunk_boundaries_do_not_matter_witness:
  "list_all valid_frame
     [\<lparr>before_length = [], length_digits = ''2'', after_length = [], frame_body = ''{}''\<rparr>,
      \<lparr>before_length = ''Content-Type: x'' @ crlf, length_digits = ''0'', after_length = [],
       frame_body = []\<rparr>]
   \<and> createLspInterceptor
       [''Content-Len'', ''gth: 2'' @ crlf @ [CHR 0x0D], CHR 0x0A # ''{'',
        ''}Content-Type: x'' @ crlf @ ''Content-Length: 0'' @ crlfcrlf]
     = ([''Content-Length: 2'' @ crlfcrlf @ ''{}'',
         ''Content-Type: x'' @ crlf @ ''Content-Length: 0'' @ crlfcrlf], [])"
proof -
  let ?f1 = "\<lparr>before_length = [], length_digits = ''2'', after_length = [], frame_body = ''{}''\<rparr>"
  let ?f2 = "\<lparr>before_length = ''Content-Type: x'' @ crlf, length_digits = ''0'', after_length = [],
       frame_body = []\<rparr>"
  let ?chunks = "[''Content-Len'', ''gth: 2'' @ crlf @ [CHR 0x0D], CHR 0x0A # ''{'',
        ''}Content-Type: x'' @ crlf @ ''Content-Length: 0'' @ crlfcrlf]"
  have v: "list_all valid_frame [?f1, ?f2]" by code_simp
  have c: "concat ?chunks = concat (map frame_bytes [?f1, ?f2])" by code_simp
  have e: "concat (map expected_output [?f1, ?f2])
      = [''Content-Length: 2'' @ crlfcrlf @ ''{}'',
         ''Content-Type: x'' @ crlf @ ''Content-Length: 0'' @ crlfcrlf]" by code_simp
  have "createLspInterceptor ?chunks = (concat (map expected_output [?f1, ?f2]), [])"
    using v c chunk_boundaries_do_not_matter [of ?chunks "[?f1, ?f2]"] by blast
  then show ?thesis using v unfolding e by blast
qed

section \<open>Searching the bytes and searching the decoded text\<close>

text \<open>
  The interceptor looks for the target in the decoded body, not in the bytes. For a
  pattern of ASCII characters the two searches agree, whatever the bytes are: the decoder
  copies an ASCII byte, and writes units that are not ASCII for anything else, the
  replacement character included.
\<close>

lemma str_includes_Cons:
  "str_includes q (x # xs) \<longleftrightarrow> prefix q (x # xs) \<or> str_includes q xs"
  by (simp add: str_includes_def)

lemma str_includes_prefix: "prefix q z \<Longrightarrow> str_includes q z"
  by (cases z) (simp_all add: str_includes_def)

lemma str_includes_append_left: "str_includes q z \<Longrightarrow> str_includes q (y @ z)"
  by (induction y) (simp_all add: str_includes_Cons)

lemma str_includes_append_right: "str_includes q z \<Longrightarrow> str_includes q (z @ y)"
  unfolding str_includes_def using indexOf_append [of q z _ y] by auto

lemma str_includes_Nil: "q \<noteq> [] \<Longrightarrow> \<not> str_includes q []"
  by (simp add: str_includes_def)

lemma str_includes_js: "str_includes (js q) (js s) \<longleftrightarrow> str_includes q s"
  by (simp add: str_includes_def indexOf_js)

lemma cont_scan_keeps_ascii:
  assumes "a < 128" "128 \<le> lo"
  shows "\<exists>r'. snd (cont_scan n lo hi cp (xs @ a # Z)) = r' @ a # Z \<and> length r' \<le> length xs"
  using assms(2)
proof (induction xs arbitrary: n lo hi cp)
  case Nil
  show ?case
  proof (cases n)
    case 0
    then show ?thesis by simp
  next
    case (Suc m)
    then show ?thesis using assms(1) Nil by simp
  qed
next
  case (Cons c xs)
  show ?case
  proof (cases n)
    case 0
    then show ?thesis by simp
  next
    case (Suc m)
    show ?thesis
    proof (cases "lo \<le> c \<and> c \<le> hi")
      case True
      obtain r' where "snd (cont_scan m 0x80 0xBF (cp * 64 + (c - 0x80)) (xs @ a # Z)) = r' @ a # Z"
        "length r' \<le> length xs"
        using Cons.IH [of "0x80" m "0xBF" "cp * 64 + (c - 0x80)"] by auto
      then show ?thesis using True Suc by auto
    next
      case False
      then have "snd (cont_scan n lo hi cp ((c # xs) @ a # Z)) = (c # xs) @ a # Z"
        using Suc by auto
      then show ?thesis by blast
    qed
  qed
qed

lemma decode_keeps_ascii:
  assumes "a < 128"
  shows "\<exists>X'. utf8_decode (X @ a # Z) = X' @ a # utf8_decode Z"
proof (induction "length X" arbitrary: X rule: less_induct)
  case less
  show ?case
  proof (cases X)
    case Nil
    then show ?thesis using assms by simp
  next
    case (Cons x xs)
    have tail: "\<exists>X'. utf8_decode (xs @ a # Z) = X' @ a # utf8_decode Z"
      using less [of xs] Cons by simp
    have multi: "\<exists>X'. (case cont_scan n lo hi cp (xs @ a # Z) of (us, r) \<Rightarrow> us @ utf8_decode r)
        = X' @ a # utf8_decode Z" if lo: "128 \<le> lo" for n lo hi cp
    proof -
      obtain us r where ur: "cont_scan n lo hi cp (xs @ a # Z) = (us, r)"
        by (cases "cont_scan n lo hi cp (xs @ a # Z)") auto
      obtain r' where r': "r = r' @ a # Z" "length r' \<le> length xs"
        using cont_scan_keeps_ascii [OF assms lo, of n hi cp xs Z] ur by auto
      obtain X' where "utf8_decode (r' @ a # Z) = X' @ a # utf8_decode Z"
        using less [of r'] r'(2) Cons by auto
      then show ?thesis using ur r'(1) by simp
    qed
    obtain T where T: "utf8_decode (xs @ a # Z) = T @ a # utf8_decode Z" using tail by blast
    have c: "\<exists>X'. y # T @ a # utf8_decode Z = X' @ a # utf8_decode Z" for y
      by (rule exI [of _ "y # T"]) simp
    show ?thesis
      unfolding Cons using T c multi by (simp del: cont_scan.simps)
  qed
qed

lemma includes_decoded:
  assumes "str_includes q b" "ascii q" "q \<noteq> []"
  shows "str_includes (js q) (toString b)"
proof -
  from assms(1) obtain i where "indexOf q b = Some i" by (auto simp: str_includes_def)
  then have "prefix q (drop i b)" by (rule indexOf_at)
  then obtain Y where "drop i b = q @ Y" by (auto simp: prefix_def)
  then have b: "b = take i b @ q @ Y" by (metis append_take_drop_id)
  obtain a q' where q: "q = a # q'" using assms(3) by (cases q) auto
  have a: "(of_char a :: nat) < 128" and q': "\<forall>u \<in> set (map of_char q'). (u :: nat) < 128"
    using assms(2) q by (auto simp: ascii_def list_all_iff)
  define A :: "nat list" where "A = map of_char (take i b)"
  define B :: "nat list" where "B = map of_char (q' @ Y)"
  have mb: "map of_char b = A @ of_char a # B"
    unfolding A_def B_def using b q by (metis list.simps(9) map_append append_Cons)
  obtain X' where d1: "utf8_decode (A @ of_char a # B) = X' @ of_char a # utf8_decode B"
    using decode_keeps_ascii [OF a] by blast
  have d2: "utf8_decode B = map of_char q' @ utf8_decode (map of_char Y)"
    unfolding B_def using decode_ascii_append [OF q'] by simp
  have "toString b = X' @ of_char a # map of_char q' @ utf8_decode (map of_char Y)"
    unfolding toString_def mb d1 d2 by simp
  then have "toString b = X' @ js q @ utf8_decode (map of_char Y)"
    by (simp add: js_def q)
  moreover have "str_includes (js q) (js q @ utf8_decode (map of_char Y))"
    by (simp add: str_includes_prefix)
  ultimately show ?thesis by (simp add: str_includes_append_left)
qed

lemma units_of_cp_high: "128 \<le> cp \<Longrightarrow> \<forall>u \<in> set (units_of_cp cp). 128 \<le> u"
  by (simp add: units_of_cp_def)

lemma cont_scan_high:
  assumes "128 \<le> lo"
    and "if n = 0 then 128 \<le> cp else 128 \<le> (cp * 64 + (lo - 128)) * 64 ^ (n - 1)"
  shows "\<forall>u \<in> set (fst (cont_scan n lo hi cp bs)). 128 \<le> u"
  using assms
proof (induction n lo hi cp bs rule: cont_scan.induct)
  case (1 lo hi cp bs)
  then show ?case by (simp add: units_of_cp_high)
next
  case (2 n lo hi cp)
  then show ?case by simp
next
  case (3 n lo hi cp c bs)
  show ?case
  proof (cases "lo \<le> c \<and> c \<le> hi")
    case True
    let ?cp = "cp * 64 + (c - 0x80)"
    have ge: "cp * 64 + (lo - 128) \<le> ?cp" using True by arith
    have big: "128 \<le> (cp * 64 + (lo - 128)) * 64 ^ n" using 3(3) by simp
    have "(cp * 64 + (lo - 128)) * 64 ^ n \<le> ?cp * 64 ^ n"
      using ge by (rule mult_le_mono1)
    with big have big': "128 \<le> ?cp * 64 ^ n" by (rule order_trans)
    have inv: "if n = 0 then 128 \<le> ?cp else 128 \<le> (?cp * 64 + (0x80 - 128)) * 64 ^ (n - 1)"
    proof (cases n)
      case 0
      then show ?thesis using big' by simp
    next
      case (Suc m)
      then have nz: "n \<noteq> 0" by simp
      have eq: "(?cp * 64 + (0x80 - 128)) * 64 ^ (n - 1) = ?cp * 64 ^ n"
        unfolding Suc by simp
      show ?thesis unfolding if_not_P [OF nz] eq by (rule big')
    qed
    have "\<forall>u \<in> set (fst (cont_scan n 0x80 0xBF ?cp bs)). 128 \<le> u"
      using 3(1) [OF True _ inv] by simp
    then show ?thesis using True by simp
  next
    case False
    then show ?thesis by auto
  qed
qed

lemma cont_scan_suffix: "\<exists>pre. bs = pre @ snd (cont_scan n lo hi cp bs)"
proof (induction n lo hi cp bs rule: cont_scan.induct)
  case (3 n lo hi cp c bs)
  show ?case
  proof (cases "lo \<le> c \<and> c \<le> hi")
    case True
    then obtain pre where "bs = pre @ snd (cont_scan n 0x80 0xBF (cp * 64 + (c - 0x80)) bs)"
      using 3 by blast
    then have "c # bs = (c # pre) @ snd (cont_scan (Suc n) lo hi cp (c # bs))"
      using True by simp
    then show ?thesis by blast
  next
    case False
    then have "c # bs = [] @ snd (cont_scan (Suc n) lo hi cp (c # bs))" by auto
    then show ?thesis by blast
  qed
qed simp_all

text \<open>The first token of a non-empty input: an ASCII byte decoded as itself, or units
  that are not ASCII; the rest is decoded from a suffix of the input.\<close>

lemma units_of_cp_nonempty: "units_of_cp cp \<noteq> []"
  by (simp add: units_of_cp_def)

lemma cont_scan_nonempty: "fst (cont_scan n lo hi cp bs) \<noteq> []"
  by (induction n lo hi cp bs rule: cont_scan.induct) (simp_all add: units_of_cp_nonempty)

lemma decode_token:
  "\<exists>us r pre. utf8_decode (x # xs) = us @ utf8_decode r \<and> xs = pre @ r \<and> us \<noteq> []
     \<and> ((x < 128 \<and> us = [x] \<and> pre = []) \<or> (\<forall>u \<in> set us. 128 \<le> u))"
proof -
  have multi: "\<exists>us r pre. (case cont_scan n lo hi cp xs of (us, r) \<Rightarrow> us @ utf8_decode r)
        = us @ utf8_decode r \<and> xs = pre @ r \<and> us \<noteq> [] \<and> (\<forall>u \<in> set us. 128 \<le> u)"
    if "128 \<le> lo" "if n = 0 then 128 \<le> cp else 128 \<le> (cp * 64 + (lo - 128)) * 64 ^ (n - 1)"
    for n lo hi cp
  proof -
    obtain us r where ur: "cont_scan n lo hi cp xs = (us, r)"
      by (cases "cont_scan n lo hi cp xs") auto
    have "\<forall>u \<in> set us. 128 \<le> u" using cont_scan_high [OF that, of hi xs] ur by simp
    moreover obtain pre where "xs = pre @ r" using cont_scan_suffix [of xs n lo hi cp] ur by auto
    moreover have "us \<noteq> []" using cont_scan_nonempty [of n lo hi cp xs] ur by simp
    ultimately show ?thesis using ur by auto
  qed
  have fin: "\<exists>us r pre. utf8_decode (x # xs) = us @ utf8_decode r \<and> xs = pre @ r \<and> us \<noteq> []
     \<and> ((x < 128 \<and> us = [x] \<and> pre = []) \<or> (\<forall>u \<in> set us. 128 \<le> u))"
    if e: "utf8_decode (x # xs) = (case cont_scan n lo hi cp xs of (us, r) \<Rightarrow> us @ utf8_decode r)"
      and l: "128 \<le> lo"
      and i: "if n = 0 then 128 \<le> cp else 128 \<le> (cp * 64 + (lo - 128)) * 64 ^ (n - 1)"
    for n lo hi cp
  proof -
    obtain us r pre where m: "(case cont_scan n lo hi cp xs of (us, r) \<Rightarrow> us @ utf8_decode r)
        = us @ utf8_decode r" "xs = pre @ r" "us \<noteq> []" "\<forall>u \<in> set us. 128 \<le> u"
      using multi [OF l i, of hi] by blast
    have "utf8_decode (x # xs) = us @ utf8_decode r \<and> xs = pre @ r \<and> us \<noteq> []
        \<and> ((x < 128 \<and> us = [x] \<and> pre = []) \<or> (\<forall>u \<in> set us. 128 \<le> u))"
      using e m by simp
    then show ?thesis by blast
  qed
  consider (ascii) "x < 0x80" | (two) "0xC2 \<le> x \<and> x \<le> 0xDF" | (three) "0xE0 \<le> x \<and> x \<le> 0xEF"
    | (four) "0xF0 \<le> x \<and> x \<le> 0xF4"
    | (bad) "\<not> x < 0x80 \<and> \<not> (0xC2 \<le> x \<and> x \<le> 0xDF) \<and> \<not> (0xE0 \<le> x \<and> x \<le> 0xEF)
        \<and> \<not> (0xF0 \<le> x \<and> x \<le> 0xF4)"
    by blast
  then show ?thesis
  proof cases
    case ascii
    then have "utf8_decode (x # xs) = [x] @ utf8_decode xs \<and> xs = [] @ xs \<and> [x] \<noteq> []" by simp
    then show ?thesis using ascii by blast
  next
    case two
    then have "utf8_decode (x # xs)
        = (case cont_scan 1 0x80 0xBF (x - 0xC0) xs of (us, r) \<Rightarrow> us @ utf8_decode r)"
      by (simp del: cont_scan.simps)
    moreover have "128 \<le> (0x80 :: nat)" by simp
    moreover have "if (1::nat) = 0 then 128 \<le> x - 0xC0
        else 128 \<le> ((x - 0xC0) * 64 + (0x80 - 128)) * 64 ^ (1 - 1)"
      using two by auto
    ultimately show ?thesis by (rule fin)
  next
    case three
    let ?lo = "if x = 0xE0 then 0xA0 else (0x80 :: nat)"
    let ?hi = "if x = 0xED then 0x9F else (0xBF :: nat)"
    have "utf8_decode (x # xs)
        = (case cont_scan 2 ?lo ?hi (x - 0xE0) xs of (us, r) \<Rightarrow> us @ utf8_decode r)"
      using three by (simp del: cont_scan.simps)
    moreover have "128 \<le> ?lo" by simp
    moreover have "if (2::nat) = 0 then 128 \<le> x - 0xE0
        else 128 \<le> ((x - 0xE0) * 64 + (?lo - 128)) * 64 ^ (2 - 1)"
      using three by (cases "x = 0xE0") auto
    ultimately show ?thesis by (rule fin)
  next
    case four
    let ?lo = "if x = 0xF0 then 0x90 else (0x80 :: nat)"
    let ?hi = "if x = 0xF4 then 0x8F else (0xBF :: nat)"
    have "utf8_decode (x # xs)
        = (case cont_scan 3 ?lo ?hi (x - 0xF0) xs of (us, r) \<Rightarrow> us @ utf8_decode r)"
      using four by (simp del: cont_scan.simps)
    moreover have "128 \<le> ?lo" by simp
    moreover have "if (3::nat) = 0 then 128 \<le> x - 0xF0
        else 128 \<le> ((x - 0xF0) * 64 + (?lo - 128)) * 64 ^ (3 - 1)"
      using four by (cases "x = 0xF0") auto
    ultimately show ?thesis by (rule fin)
  next
    case bad
    then have "utf8_decode (x # xs) = 0xFFFD # utf8_decode xs"
      by (auto simp del: cont_scan.simps)
    then have "utf8_decode (x # xs) = [0xFFFD] @ utf8_decode xs \<and> xs = [] @ xs
        \<and> [0xFFFD :: nat] \<noteq> [] \<and> (\<forall>u \<in> set [0xFFFD :: nat]. 128 \<le> u)"
      by simp
    then show ?thesis by blast
  qed
qed

lemma prefix_decoded_ascii:
  "\<forall>u \<in> set Q. u < 128 \<Longrightarrow> prefix Q (utf8_decode bs) \<Longrightarrow> prefix Q bs"
proof (induction Q arbitrary: bs)
  case Nil
  then show ?case by simp
next
  case (Cons a Q)
  show ?case
  proof (cases bs)
    case Nil
    then show ?thesis using Cons.prems by simp
  next
    case (Cons x xs)
    obtain us r pre where t: "utf8_decode (x # xs) = us @ utf8_decode r" "xs = pre @ r" "us \<noteq> []"
      "(x < 128 \<and> us = [x] \<and> pre = []) \<or> (\<forall>u \<in> set us. 128 \<le> u)"
      using decode_token [of x xs] by blast
    obtain u us' where us: "us = u # us'" using t(3) by (cases us) auto
    have p: "prefix (a # Q) (u # us' @ utf8_decode r)"
      using Cons.prems(2) t(1) us Cons by simp
    then have au: "a = u" by simp
    have "a < 128" using Cons.prems(1) by simp
    then have "x < 128 \<and> us = [x] \<and> pre = []" using t(4) au us by auto
    then have "x = a" "prefix Q (utf8_decode xs)" using p us t(2) au by auto
    then show ?thesis using Cons.IH [of xs] Cons.prems(1) Cons by simp
  qed
qed

lemma skip_high:
  assumes "\<forall>u \<in> set us. 128 \<le> u" "Q \<noteq> []" "hd Q < (128::nat)" "str_includes Q (us @ z)"
  shows "str_includes Q z"
  using assms(1,4)
proof (induction us)
  case Nil
  then show ?case by simp
next
  case (Cons u us)
  have "\<not> prefix Q (u # us @ z)"
  proof
    assume "prefix Q (u # us @ z)"
    then have "hd Q = u" using assms(2) by (cases Q) auto
    then show False using assms(3) Cons.prems(1) by simp
  qed
  then show ?case using Cons by (simp add: str_includes_Cons)
qed

lemma includes_from_decoded_units:
  assumes "\<forall>u \<in> set Q. u < 128" "Q \<noteq> []"
  shows "str_includes Q (utf8_decode bs) \<Longrightarrow> str_includes Q bs"
proof (induction "length bs" arbitrary: bs rule: less_induct)
  case less
  show ?case
  proof (cases bs)
    case Nil
    then show ?thesis using less.prems by simp
  next
    case (Cons x xs)
    obtain us r pre where t: "utf8_decode (x # xs) = us @ utf8_decode r" "xs = pre @ r" "us \<noteq> []"
      "(x < 128 \<and> us = [x] \<and> pre = []) \<or> (\<forall>u \<in> set us. 128 \<le> u)"
      using decode_token [of x xs] by blast
    have hq: "hd Q < 128" using assms by (cases Q) auto
    from t(4) show ?thesis
    proof
      assume a: "x < 128 \<and> us = [x] \<and> pre = []"
      then have "r = xs" using t(2) by simp
      then have d: "utf8_decode bs = x # utf8_decode xs"
        using t(1) a unfolding Cons by (simp del: utf8_decode.simps)
      have "str_includes Q (x # utf8_decode xs)" using less.prems unfolding d .
      then have "prefix Q (x # utf8_decode xs) \<or> str_includes Q (utf8_decode xs)"
        by (simp only: str_includes_Cons)
      then consider "prefix Q (utf8_decode bs)" | "str_includes Q (utf8_decode xs)"
        unfolding d by blast
      then show ?thesis
      proof cases
        case 1
        then have "prefix Q bs" using assms(1) by (rule prefix_decoded_ascii [rotated])
        then show ?thesis by (rule str_includes_prefix)
      next
        case 2
        moreover have "length xs < length bs" unfolding Cons by simp
        ultimately have "str_includes Q xs" by (rule less.hyps [rotated])
        then show ?thesis unfolding Cons by (simp add: str_includes_Cons)
      qed
    next
      assume h: "\<forall>u \<in> set us. 128 \<le> u"
      have "str_includes Q (us @ utf8_decode r)" using less.prems unfolding Cons t(1) .
      then have "str_includes Q (utf8_decode r)" using skip_high [OF h assms(2) hq] by blast
      moreover have "length r < length bs" unfolding Cons t(2) by simp
      ultimately have "str_includes Q r" by (rule less.hyps [rotated])
      then have "str_includes Q ((x # pre) @ r)" by (rule str_includes_append_left)
      then show ?thesis unfolding Cons t(2) by simp
    qed
  qed
qed

lemma includes_decoded_iff:
  assumes "ascii q" "q \<noteq> []"
  shows "str_includes (js q) (toString b) \<longleftrightarrow> str_includes q b"
proof
  assume "str_includes (js q) (toString b)"
  then have "str_includes (js q) (utf8_decode (map of_char b))" by (simp add: toString_def)
  then have "str_includes (js q) (map of_char b)"
    using includes_from_decoded_units [of "js q" "map of_char b"] js_units_ascii [OF assms(1)]
      js_nonempty [OF assms(2)] by blast
  then have "str_includes (js q) (js b)" by (simp add: js_def)
  then show "str_includes q b" by (simp add: str_includes_js)
next
  assume "str_includes q b"
  then show "str_includes (js q) (toString b)" using assms by (rule includes_decoded)
qed

lemma ascii_plaintext: "ascii plaintext"
  by (simp add: ascii_def plaintext_def)

lemma plaintext_nonempty: "plaintext \<noteq> []"
  by (simp add: plaintext_def)

lemma body_has_target_iff:
  "str_includes (js plaintext) (toString b) \<longleftrightarrow> str_includes plaintext b"
  using ascii_plaintext plaintext_nonempty by (rule includes_decoded_iff)

section \<open>Frames that pass through\<close>

lemma nothing_in_empty: "\<not> str_includes plaintext []"
  by (simp add: str_includes_def plaintext_def)

text \<open>
  C3. A valid frame whose body does not contain the bytes of the target is pushed as one
  buffer holding exactly the bytes received, header included, and the bytes after it stay
  in the buffer. A valid frame with an empty body is such a frame: it is pushed at once.
\<close>

theorem passthrough_is_exact:
  "(valid_frame f \<and> \<not> str_includes plaintext (frame_body f) \<longrightarrow>
      createLspInterceptor [frame_bytes f] = ([frame_bytes f], [])
      \<and> interceptor_step (frame_bytes f @ rest) = Some ([frame_bytes f], rest))
   \<and> (valid_frame f \<and> frame_body f = [] \<longrightarrow>
      createLspInterceptor [frame_bytes f] = ([frame_bytes f], []))"
proof -
  have a: "createLspInterceptor [frame_bytes f] = ([frame_bytes f], [])
      \<and> interceptor_step (frame_bytes f @ rest) = Some ([frame_bytes f], rest)"
    if v: "valid_frame f" and n: "\<not> str_includes plaintext (frame_body f)"
  proof -
    have e: "expected_output f = [frame_bytes f]"
      using n by (simp add: expected_output_def body_has_target_iff)
    have "createLspInterceptor [frame_bytes f] = (concat (map expected_output [f]), [])"
      using chunks_of_frames [of "[f]" "[frame_bytes f]"] v by simp
    then show ?thesis using step_valid [OF v, of rest] e by simp
  qed
  show ?thesis using a nothing_in_empty by auto
qed

theorem passthrough_is_exact_witness:
  "valid_frame \<lparr>before_length = [], length_digits = ''0'', after_length = [], frame_body = []\<rparr>
   \<and> createLspInterceptor [''Content-Length: 0'' @ crlfcrlf] = ([''Content-Length: 0'' @ crlfcrlf], [])
   \<and> valid_frame \<lparr>before_length = [], length_digits = ''11'',
        after_length = crlf @ ''Content-Type: x'', frame_body = [CHR 0x7B, CHR 0x22, CHR 0x61, CHR 0x22, CHR 0x3A, CHR 0x22, CHR 0xC3, CHR 0xA9, CHR 0x22, CHR 0x7D, CHR 0x0A]\<rparr>"
proof -
  let ?f = "\<lparr>before_length = [], length_digits = ''0'', after_length = [], frame_body = []\<rparr>"
  have v: "valid_frame ?f" by code_simp
  have b: "frame_bytes ?f = ''Content-Length: 0'' @ crlfcrlf" by code_simp
  have v2: "valid_frame \<lparr>before_length = [], length_digits = ''11'',
        after_length = crlf @ ''Content-Type: x'', frame_body = [CHR 0x7B, CHR 0x22, CHR 0x61, CHR 0x22, CHR 0x3A, CHR 0x22, CHR 0xC3, CHR 0xA9, CHR 0x22, CHR 0x7D, CHR 0x0A]\<rparr>"
    by code_simp
  have "createLspInterceptor [frame_bytes ?f] = ([frame_bytes ?f], [])"
    using v passthrough_is_exact [of ?f "[]"] by simp
  then show ?thesis using v v2 unfolding b by blast
qed

section \<open>Rewriting the language identifier\<close>



































































end
